theory Spec2Isabelle
  imports Complex_Main
begin

section \<open>Quoridor rule engine: data model\<close>

text \<open>
  The engine of \<^verbatim>\<open>quoridor.py\<close>: classes \<^verbatim>\<open>Player\<close>, \<^verbatim>\<open>Wall\<close>, \<^verbatim>\<open>Validator\<close>,
  \<^verbatim>\<open>Board\<close> and \<^verbatim>\<open>Game\<close>. Cells and lattice points are pairs of Python integers.
  A wall stores its two end points after adding \<^verbatim>\<open>0.5\<close> to each coordinate (unless
  it is a ``fake'' probe); a float \<^verbatim>\<open>n + 0.5\<close> is exact for every integer the board
  can produce, so the coordinates of a wall are modelled as rationals.
\<close>

type_synonym pos = "int \<times> int"

datatype py_error = IndexError | AttributeError | RecursionError | TypeError | ZeroDivisionError

record player =
  colour :: string
  position :: pos
  remaining_walls :: int
  won :: bool
  wins :: "pos option"

record wall =
  wstart :: "rat \<times> rat"
  wend :: "rat \<times> rat"

text \<open>
  \<^verbatim>\<open>Game\<close>, \<^verbatim>\<open>Board\<close> and \<^verbatim>\<open>Validator\<close> hold references to the same three objects
  (\<^verbatim>\<open>Validator(self.board.grid, self.board.walls, self.players)\<close>), all mutated in
  place and never rebound, so one record carries them. \<^verbatim>\<open>visited\<close> is the
  validator's own set. A grid cell holds \<^verbatim>\<open>None\<close> or the index of a player.
\<close>

record game =
  grid :: "int option list list"
  walls :: "wall list"
  players :: "player list"
  visited :: "pos set"
  currplayer :: int
  num_players :: int

definition DEFAULT :: "pos list" where
  "DEFAULT = [(-1, 0), (1, 0), (0, -1), (0, 1)]"

subsection \<open>Python list indexing\<close>

text \<open>An index \<open>i\<close> of a list of length \<open>n\<close>: negative indices count from the end,
  anything outside \<open>[-n, n)\<close> raises \<^verbatim>\<open>IndexError\<close>.\<close>

definition py_index :: "nat \<Rightarrow> int \<Rightarrow> nat option" where
  "py_index n i =
     (if 0 \<le> i \<and> i < int n then Some (nat i)
      else if - int n \<le> i \<and> i < 0 then Some (nat (i + int n))
      else None)"

definition py_nth :: "'a list \<Rightarrow> int \<Rightarrow> py_error + 'a" where
  "py_nth xs i = (case py_index (length xs) i of None \<Rightarrow> Inl IndexError | Some k \<Rightarrow> Inr (xs ! k))"

definition py_set :: "'a list \<Rightarrow> int \<Rightarrow> 'a \<Rightarrow> py_error + 'a list" where
  "py_set xs i v = (case py_index (length xs) i of None \<Rightarrow> Inl IndexError | Some k \<Rightarrow> Inr (xs[k := v]))"

definition grid_get :: "int option list list \<Rightarrow> int \<Rightarrow> int \<Rightarrow> py_error + int option" where
  "grid_get g x y = (case py_nth g x of Inl e \<Rightarrow> Inl e | Inr row \<Rightarrow> py_nth row y)"

definition grid_set :: "int option list list \<Rightarrow> int \<Rightarrow> int \<Rightarrow> int option \<Rightarrow> py_error + int option list list" where
  "grid_set g x y v =
     (case py_nth g x of Inl e \<Rightarrow> Inl e
      | Inr row \<Rightarrow> (case py_set row y v of Inl e \<Rightarrow> Inl e | Inr row' \<Rightarrow> py_set g x row'))"

text \<open>A read \<^verbatim>\<open>self.grid[i][j]\<close> that the source guards with \<open>0 \<le> i < 9\<close> and
  \<open>0 \<le> j < 9\<close>; the grid is built 9 by 9 and never resized.\<close>

definition cell :: "int option list list \<Rightarrow> int \<Rightarrow> int \<Rightarrow> int option" where
  "cell g i j = g ! nat i ! nat j"

section \<open>Player\<close>

definition Player_init :: "string \<Rightarrow> pos \<Rightarrow> int \<Rightarrow> player" where
  "Player_init c p w =
     \<lparr>colour = c, position = p, remaining_walls = w, won = False,
      wins = (if snd p = 4 then Some (8 - fst p, -1)
              else if fst p = 4 then Some (-1, 8 - snd p)
              else None)\<rparr>"

definition setpos :: "player \<Rightarrow> pos \<Rightarrow> py_error + player" where
  "setpos self p =
     (let self1 = self\<lparr>position := p\<rparr> in
      case wins self1 of
        None \<Rightarrow> Inl AttributeError
      | Some w \<Rightarrow>
          if fst (position self1) = fst w \<or> snd (position self1) = snd w
          then Inr (self1\<lparr>won := True\<rparr>)
          else Inr self1)"

definition place_wall :: "player \<Rightarrow> player" where
  "place_wall self = self\<lparr>remaining_walls := remaining_walls self - 1\<rparr>"

section \<open>Wall\<close>

definition Wall_init :: "pos \<Rightarrow> pos \<Rightarrow> bool \<Rightarrow> wall" where
  "Wall_init st en fake =
     (let sh = (if fake then 0 else 1 / 2);
          s = (of_int (fst st) + sh, of_int (snd st) + sh);
          e = (of_int (fst en) + sh, of_int (snd en) + sh)
      in if fst s > fst e \<or> snd s > snd e
         then \<lparr>wstart = e, wend = s\<rparr>
         else \<lparr>wstart = s, wend = e\<rparr>)"

definition overlaps :: "wall \<Rightarrow> wall \<Rightarrow> bool" where
  "overlaps self other =
     (if wstart self = wstart other \<and> wend self = wend other then True
      else if fst (wstart self) < fst (wend other) \<and> fst (wend other) < fst (wend self)
              \<and> snd (wstart self) = snd (wend self) \<and> snd (wend self) = snd (wend other)
              \<and> snd (wend other) = snd (wstart other) then True
      else if fst (wstart self) < fst (wstart other) \<and> fst (wstart other) < fst (wend self)
              \<and> snd (wstart self) = snd (wend self) \<and> snd (wend self) = snd (wend other)
              \<and> snd (wend other) = snd (wstart other) then True
      else if snd (wstart self) < snd (wend other) \<and> snd (wend other) < snd (wend self)
              \<and> fst (wstart self) = fst (wend self) \<and> fst (wend self) = fst (wend other)
              \<and> fst (wend other) = fst (wstart other) then True
      else if snd (wstart self) < snd (wstart other) \<and> snd (wstart other) < snd (wend self)
              \<and> fst (wstart self) = fst (wend self) \<and> fst (wend self) = fst (wend other)
              \<and> fst (wend other) = fst (wstart other) then True
      else if snd (wstart self) < snd (wstart other) \<and> snd (wstart other) < snd (wend self)
              \<and> fst (wstart other) < fst (wstart self) \<and> fst (wstart self) < fst (wend other) then True
      else if fst (wstart self) < fst (wstart other) \<and> fst (wstart other) < fst (wend self)
              \<and> snd (wstart other) < snd (wstart self) \<and> snd (wstart self) < snd (wend other) then True
      else False)"

section \<open>Validator\<close>

definition reset :: "game \<Rightarrow> game" where
  "reset s = s\<lparr>visited := {}\<rparr>"

fun overlap_loop :: "wall \<Rightarrow> wall list \<Rightarrow> bool" where
  "overlap_loop check [] = False"
| "overlap_loop check (w # ws) = (if overlaps check w then True else overlap_loop check ws)"

definition any_overlap :: "game \<Rightarrow> pos \<Rightarrow> pos \<Rightarrow> bool \<Rightarrow> bool" where
  "any_overlap s st en fake = overlap_loop (Wall_init st en fake) (walls s)"

text \<open>One iteration of the loop over \<^verbatim>\<open>DEFAULT\<close> in \<^verbatim>\<open>possible_moves\<close>: the cells
  it appends to \<^verbatim>\<open>ret\<close>, in order.\<close>

definition possible_moves_dir :: "game \<Rightarrow> pos \<Rightarrow> pos \<Rightarrow> pos list" where
  "possible_moves_dir s p d =
     (let x = fst p; y = snd p; dx = fst d; dy = snd d in
      if 0 \<le> x + dx \<and> x + dx < 9 \<and> 0 \<le> y + dy \<and> y + dy < 9 then
        if cell (grid s) (x + dx) (y + dy) \<noteq> None then
          if 0 \<le> x + dx * 2 \<and> x + dx * 2 < 9 \<and> 0 \<le> y + dy * 2 \<and> y + dy * 2 < 9
             \<and> cell (grid s) (x + dx * 2) (y + dy * 2) = None
             \<and> \<not> any_overlap s (x, y) (x + 2 * dx, y + 2 * dy) True
          then [(x + 2 * dx, y + 2 * dy)]
          else
            (if dy \<noteq> 0 \<and> x + 1 < 9 \<and> cell (grid s) (x + 1) (y + dy) = None
                \<and> \<not> any_overlap s (x, y) (x + 1, y + dy) True
             then [(x + 1, y + dy)] else [])
            @ (if dy \<noteq> 0 \<and> x - 1 \<ge> 0 \<and> cell (grid s) (x - 1) (y + dy) = None
                  \<and> \<not> any_overlap s (x, y) (x - 1, y + dy) True
               then [(x - 1, y + dy)] else [])
            @ (if dx \<noteq> 0 \<and> y + 1 < 9 \<and> cell (grid s) (x + dx) (y + 1) = None
                  \<and> \<not> any_overlap s (x, y) (x + dx, y + 1) True
               then [(x + dx, y + 1)] else [])
            @ (if dx \<noteq> 0 \<and> y - 1 \<ge> 0 \<and> cell (grid s) (x + dx) (y - 1) = None
                  \<and> \<not> any_overlap s (x, y) (x + dx, y - 1) True
               then [(x + dx, y - 1)] else [])
        else if \<not> any_overlap s (x, y) (x + dx, y + dy) True then [(x + dx, y + dy)]
        else []
      else [])"

definition possible_moves :: "game \<Rightarrow> pos \<Rightarrow> pos list" where
  "possible_moves s p = concat (map (possible_moves_dir s p) DEFAULT)"

text \<open>
  \<^verbatim>\<open>way_exists\<close> is recursive in the source and threads \<^verbatim>\<open>self.visited\<close> through
  its recursive calls. The first argument bounds the depth of the recursion: a call that
  would go deeper raises \<^verbatim>\<open>RecursionError\<close>, as Python does at its recursion limit.
  \<^verbatim>\<open>way_exists_loop\<close> is the loop over \<^verbatim>\<open>DEFAULT\<close> in its body.
\<close>

function way_exists :: "nat \<Rightarrow> game \<Rightarrow> pos \<Rightarrow> pos \<Rightarrow> py_error + bool \<times> game"
  and way_exists_loop :: "nat \<Rightarrow> game \<Rightarrow> pos \<Rightarrow> pos \<Rightarrow> pos list \<Rightarrow> py_error + bool \<times> game" where
  "way_exists 0 s node dest = Inl RecursionError"
| "way_exists (Suc n) s node dest =
     (if fst node = fst dest \<or> snd node = snd dest then Inr (True, s)
      else way_exists_loop n (s\<lparr>visited := insert node (visited s)\<rparr>) node dest DEFAULT)"
| "way_exists_loop n s node dest [] = Inr (False, s)"
| "way_exists_loop n s node dest (d # ds) =
     (let en = (fst node + fst d, snd node + snd d) in
      if 0 \<le> fst en \<and> fst en < 9 \<and> 0 \<le> snd en \<and> snd en < 9
         \<and> en \<notin> visited s \<and> \<not> any_overlap s node en True
      then (case way_exists n s en dest of
              Inl e \<Rightarrow> Inl e
            | Inr (b, s') \<Rightarrow> if b then Inr (True, s') else way_exists_loop n s' node dest ds)
      else way_exists_loop n s node dest ds)"
  by pat_completeness auto
termination
  by (relation "inv_image (less_than <*lex*> less_than)
        (\<lambda>x. case x of Inl (n, s, node, dest) \<Rightarrow> (n, 0)
                      | Inr (n, s, node, dest, ds) \<Rightarrow> (n, Suc (length ds)))") auto

text \<open>\<^verbatim>\<open>del self.walls[-1]\<close>.\<close>

definition del_last :: "'a list \<Rightarrow> py_error + 'a list" where
  "del_last xs = (if xs = [] then Inl IndexError else Inr (butlast xs))"

text \<open>The loop \<^verbatim>\<open>for player in self.players\<close> of \<^verbatim>\<open>possible_orients\<close>; its result
  is the flag \<^verbatim>\<open>can\<close>.\<close>

fun players_loop :: "nat \<Rightarrow> game \<Rightarrow> player list \<Rightarrow> py_error + bool \<times> game" where
  "players_loop n s [] = Inr (True, s)"
| "players_loop n s (p # ps) =
     (case wins p of
        None \<Rightarrow> Inl AttributeError
      | Some w \<Rightarrow>
          (case way_exists n (reset s) (position p) w of
             Inl e \<Rightarrow> Inl e
           | Inr (b, s') \<Rightarrow> if \<not> b then Inr (False, s') else players_loop n s' ps))"

text \<open>One iteration of the loop over \<^verbatim>\<open>DEFAULT\<close> in \<^verbatim>\<open>possible_orients\<close>: what it
  appends to \<^verbatim>\<open>ret\<close>, and the state it leaves.\<close>

definition orient_step :: "nat \<Rightarrow> game \<Rightarrow> pos \<Rightarrow> pos \<Rightarrow> py_error + pos list \<times> game" where
  "orient_step n s p d =
     (let en = (fst p + 2 * fst d, snd p + 2 * snd d) in
      if -1 \<le> fst en \<and> fst en < 9 \<and> -1 \<le> snd en \<and> snd en < 9 then
        if \<not> any_overlap s p en False then
          (case players_loop n (s\<lparr>walls := walls s @ [Wall_init p en False]\<rparr>) (players s) of
             Inl e \<Rightarrow> Inl e
           | Inr (can, s1) \<Rightarrow>
               (case del_last (walls s1) of
                  Inl e \<Rightarrow> Inl e
                | Inr ws \<Rightarrow> Inr (if can then [d] else [], s1\<lparr>walls := ws\<rparr>)))
        else Inr ([], s)
      else Inr ([], s))"

fun possible_orients_loop :: "nat \<Rightarrow> game \<Rightarrow> pos \<Rightarrow> pos list \<Rightarrow> pos list \<Rightarrow> py_error + pos list \<times> game" where
  "possible_orients_loop n s p [] ret = Inr (ret, s)"
| "possible_orients_loop n s p (d # ds) ret =
     (case orient_step n s p d of
        Inl e \<Rightarrow> Inl e
      | Inr (r, s') \<Rightarrow> possible_orients_loop n s' p ds (ret @ r))"

definition possible_orients :: "nat \<Rightarrow> game \<Rightarrow> pos \<Rightarrow> py_error + pos list \<times> game" where
  "possible_orients n s p = possible_orients_loop n s p DEFAULT []"

text \<open>The lattice points in the order of \<^verbatim>\<open>for y in range(8): for x in range(8)\<close>.\<close>

definition lattice :: "pos list" where
  "lattice = concat (map (\<lambda>y. map (\<lambda>x. (x, y)) [0..7]) [0..7])"

fun possible_walls_loop :: "nat \<Rightarrow> game \<Rightarrow> pos list \<Rightarrow> pos list \<Rightarrow> py_error + pos list \<times> game" where
  "possible_walls_loop n s [] ret = Inr (ret, s)"
| "possible_walls_loop n s (p # ps) ret =
     (case possible_orients n s p of
        Inl e \<Rightarrow> Inl e
      | Inr (os, s') \<Rightarrow> possible_walls_loop n s' ps (if os \<noteq> [] then ret @ [p] else ret))"

definition possible_walls :: "nat \<Rightarrow> game \<Rightarrow> player \<Rightarrow> py_error + pos list \<times> game" where
  "possible_walls n s pl =
     (if remaining_walls pl = 0 then Inr ([], s) else possible_walls_loop n s lattice [])"

fun all_possible_walls_loop :: "nat \<Rightarrow> game \<Rightarrow> pos list \<Rightarrow> (pos \<times> pos) list \<Rightarrow> py_error + (pos \<times> pos) list \<times> game" where
  "all_possible_walls_loop n s [] ret = Inr (ret, s)"
| "all_possible_walls_loop n s (p # ps) ret =
     (case possible_orients n s p of
        Inl e \<Rightarrow> Inl e
      | Inr (os, s') \<Rightarrow> all_possible_walls_loop n s' ps (ret @ map (\<lambda>d. (p, d)) os))"

definition all_possible_walls :: "nat \<Rightarrow> game \<Rightarrow> py_error + (pos \<times> pos) list \<times> game" where
  "all_possible_walls n s = all_possible_walls_loop n s lattice []"

subsection \<open>Breadth-first search\<close>

definition cells :: "pos set" where
  "cells = {0..8} \<times> {0..8}"

text \<open>The loop \<^verbatim>\<open>for move in self.possible_moves(cur)\<close> of \<^verbatim>\<open>bfs\<close>.\<close>

fun bfs_enqueue :: "pos list \<Rightarrow> int \<Rightarrow> pos set \<Rightarrow> (pos \<times> int) list \<Rightarrow> pos set \<times> (pos \<times> int) list" where
  "bfs_enqueue [] dep vis q = (vis, q)"
| "bfs_enqueue (m # ms) dep vis q =
     (if m \<notin> vis then bfs_enqueue ms dep (insert m vis) (q @ [(m, dep + 1)])
      else bfs_enqueue ms dep vis q)"

lemma possible_moves_dir_cells:
  assumes "d \<in> set DEFAULT"
  shows "set (possible_moves_dir s p d) \<subseteq> cells"
proof -
  obtain x y where p: "p = (x, y)" by (cases p)
  have d: "d = (-1, 0) \<or> d = (1, 0) \<or> d = (0, -1) \<or> d = (0, 1)"
    using assms by (auto simp: DEFAULT_def)
  from d show ?thesis
  proof (elim disjE)
    assume "d = (-1, 0)"
    then show ?thesis
      unfolding p possible_moves_dir_def Let_def cells_def by auto
  next
    assume "d = (1, 0)"
    then show ?thesis
      unfolding p possible_moves_dir_def Let_def cells_def by auto
  next
    assume "d = (0, -1)"
    then show ?thesis
      unfolding p possible_moves_dir_def Let_def cells_def by auto
  next
    assume "d = (0, 1)"
    then show ?thesis
      unfolding p possible_moves_dir_def Let_def cells_def by auto
  qed
qed

lemma possible_moves_cells: "set (possible_moves s p) \<subseteq> cells"
proof
  fix m
  assume "m \<in> set (possible_moves s p)"
  then obtain d where "d \<in> set DEFAULT" and "m \<in> set (possible_moves_dir s p d)"
    by (auto simp: possible_moves_def)
  with possible_moves_dir_cells [of d s p] show "m \<in> cells" by blast
qed

lemma finite_cells: "finite cells"
  by (simp add: cells_def)

lemma bfs_enqueue_measure:
  "set ms \<subseteq> cells \<Longrightarrow> bfs_enqueue ms dep vis q = (vis', q') \<Longrightarrow>
   2 * card (cells - vis') + length q' \<le> 2 * card (cells - vis) + length q"
proof (induction ms arbitrary: vis q)
  case Nil
  then show ?case by simp
next
  case (Cons m ms)
  show ?case
  proof (cases "m \<in> vis")
    case True
    with Cons show ?thesis by simp
  next
    case False
    have m: "m \<in> cells - vis" using Cons.prems(1) False by simp
    have fin: "finite (cells - vis)" using finite_cells by simp
    have eq: "cells - insert m vis = (cells - vis) - {m}" by auto
    have c: "card (cells - insert m vis) = card (cells - vis) - 1"
      unfolding eq using m fin by simp
    have pos: "0 < card (cells - vis)" using m fin by (auto simp: card_gt_0_iff)
    from Cons.prems False
    have "bfs_enqueue ms dep (insert m vis) (q @ [(m, dep + 1)]) = (vis', q')" by simp
    with Cons.IH [of "insert m vis" "q @ [(m, dep + 1)]"] Cons.prems(1)
    have "2 * card (cells - vis') + length q'
            \<le> 2 * card (cells - insert m vis) + length (q @ [(m, dep + 1)])" by simp
    with c pos show ?thesis by simp
  qed
qed

lemma bfs_step_decreases:
  assumes "bfs_enqueue (possible_moves s cur) dep (visited s) q = (vis', q')"
  shows "2 * card (cells - vis') + length q' < 2 * card (cells - visited s) + length ((cur, dep) # q)"
  using bfs_enqueue_measure [OF possible_moves_cells assms] by simp

text \<open>The \<^verbatim>\<open>while queue\<close> loop of \<^verbatim>\<open>bfs\<close>: the queue as a list, popped at the head.\<close>

function bfs_loop :: "game \<Rightarrow> pos \<Rightarrow> (pos \<times> int) list \<Rightarrow> int \<times> game" where
  "bfs_loop s w [] = (1000000, s)"
| "bfs_loop s w ((cur, dep) # q) =
     (if fst cur = fst w \<or> snd cur = snd w then (dep, s)
      else (case bfs_enqueue (possible_moves s cur) dep (visited s) q of
              (vis', q') \<Rightarrow> bfs_loop (s\<lparr>visited := vis'\<rparr>) w q'))"
  by pat_completeness auto
termination
  by (relation "measure (\<lambda>(s, w, q). 2 * card (cells - visited s) + length q)")
     (auto dest: bfs_step_decreases [OF sym])

definition bfs :: "game \<Rightarrow> pos \<Rightarrow> pos \<Rightarrow> int \<times> game" where
  "bfs s p w =
     (let s1 = reset s; s2 = s1\<lparr>visited := insert p (visited s1)\<rparr>
      in bfs_loop s2 w [(p, 0)])"

text \<open>The loop \<^verbatim>\<open>for player in self.players\<close> of \<^verbatim>\<open>best_wall\<close>, adding to
  \<^verbatim>\<open>score\<close> the distance of every player that does not stand on \<^verbatim>\<open>my_pos\<close>.\<close>

fun score_loop :: "game \<Rightarrow> pos \<Rightarrow> player list \<Rightarrow> int \<Rightarrow> py_error + int \<times> game" where
  "score_loop s my_pos [] score = Inr (score, s)"
| "score_loop s my_pos (p # ps) score =
     (if position p \<noteq> my_pos then
        (case wins p of
           None \<Rightarrow> Inl AttributeError
         | Some w \<Rightarrow> (case bfs s (position p) w of (d, s') \<Rightarrow> score_loop s' my_pos ps (score + d)))
      else score_loop s my_pos ps score)"

text \<open>The body of the loop \<^verbatim>\<open>for pos, dir in samples\<close> of \<^verbatim>\<open>best_wall\<close>, up to
  \<^verbatim>\<open>del self.walls[-1]\<close>: the score of one candidate.\<close>

definition wall_score :: "game \<Rightarrow> pos \<Rightarrow> pos \<Rightarrow> pos \<times> pos \<Rightarrow> py_error + int \<times> game" where
  "wall_score s my_pos win c =
     (let p = fst c; dir = snd c;
          s1 = s\<lparr>walls := walls s @ [Wall_init p (fst p + 2 * fst dir, snd p + 2 * snd dir) False]\<rparr>
      in case score_loop s1 my_pos (players s1) 0 of
           Inl e \<Rightarrow> Inl e
         | Inr (score, s2) \<Rightarrow>
             (case bfs s2 my_pos win of
                (d, s3) \<Rightarrow>
                  (case del_last (walls s3) of
                     Inl e \<Rightarrow> Inl e
                   | Inr ws \<Rightarrow> Inr (score - d, s3\<lparr>walls := ws\<rparr>))))"

fun best_wall_loop ::
  "game \<Rightarrow> pos \<Rightarrow> pos \<Rightarrow> (pos \<times> pos) list \<Rightarrow> (pos \<times> pos) option \<Rightarrow> int
     \<Rightarrow> py_error + (pos \<times> pos) option \<times> game" where
  "best_wall_loop s my_pos win [] bwall bscore = Inr (bwall, s)"
| "best_wall_loop s my_pos win (c # cs) bwall bscore =
     (case wall_score s my_pos win c of
        Inl e \<Rightarrow> Inl e
      | Inr (score, s') \<Rightarrow>
          if score > bscore then best_wall_loop s' my_pos win cs (Some c) score
          else best_wall_loop s' my_pos win cs bwall bscore)"

definition best_wall :: "nat \<Rightarrow> game \<Rightarrow> pos \<Rightarrow> pos \<Rightarrow> py_error + (pos \<times> pos) option \<times> game" where
  "best_wall n s my_pos win =
     (case all_possible_walls n s of
        Inl e \<Rightarrow> Inl e
      | Inr (all_w, s1) \<Rightarrow> best_wall_loop s1 my_pos win all_w None (-1000))"

section \<open>Board and Game\<close>

definition Board_move :: "int option list list \<Rightarrow> pos \<Rightarrow> pos \<Rightarrow> py_error + int option list list" where
  "Board_move g fr to =
     (case grid_get g (fst fr) (snd fr) of
        Inl e \<Rightarrow> Inl e
      | Inr v \<Rightarrow>
          (case grid_set g (fst to) (snd to) v of
             Inl e \<Rightarrow> Inl e
           | Inr g1 \<Rightarrow> grid_set g1 (fst fr) (snd fr) None))"

definition Board_place_wall :: "wall list \<Rightarrow> pos \<Rightarrow> pos option \<Rightarrow> py_error + wall list" where
  "Board_place_wall ws p orient =
     (case orient of
        None \<Rightarrow> Inl TypeError
      | Some d \<Rightarrow> Inr (ws @ [Wall_init (fst p, snd p) (fst p + 2 * fst d, snd p + 2 * snd d) False]))"

text \<open>\<^verbatim>\<open>self.currplayer += 1; self.currplayer %= self.num_players\<close>.\<close>

definition next_player :: "game \<Rightarrow> py_error + game" where
  "next_player s =
     (if num_players s = 0 then Inl ZeroDivisionError
      else Inr (s\<lparr>currplayer := (currplayer s + 1) mod num_players s\<rparr>))"

definition make_move :: "game \<Rightarrow> string \<Rightarrow> pos \<Rightarrow> pos option \<Rightarrow> py_error + game" where
  "make_move s ty p orient =
     (if ty = ''wall'' then
        (case Board_place_wall (walls s) p orient of
           Inl e \<Rightarrow> Inl e
         | Inr ws \<Rightarrow>
             (case py_index (length (players s)) (currplayer s) of
                None \<Rightarrow> Inl IndexError
              | Some i \<Rightarrow>
                  next_player (s\<lparr>walls := ws, players := (players s)[i := place_wall (players s ! i)]\<rparr>)))
      else if ty = ''move'' then
        (case py_index (length (players s)) (currplayer s) of
           None \<Rightarrow> Inl IndexError
         | Some i \<Rightarrow>
             (case Board_move (grid s) (position (players s ! i)) p of
                Inl e \<Rightarrow> Inl e
              | Inr g \<Rightarrow>
                  (case setpos (players s ! i) p of
                     Inl e \<Rightarrow> Inl e
                   | Inr pl \<Rightarrow> next_player (s\<lparr>grid := g, players := (players s)[i := pl]\<rparr>))))
      else Inr s)"



section \<open>Concrete game states\<close>

text \<open>The state \<^verbatim>\<open>Game(2, ...)\<close> builds: two pawns on their start cells, no wall.\<close>

definition game2 :: game where
  "game2 = \<lparr>grid = (replicate 9 (replicate 9 None))[4 := (replicate 9 None)[0 := Some 0, 8 := Some 1]],
     walls = [],
     players = [Player_init ''darkgreen'' (4, 0) 10, Player_init ''slateblue'' (4, 8) 10],
     visited = {}, currplayer = 0, num_players = 2\<rparr>"

text \<open>A two-player position: pawn 0 has walked down to \<open>(4, 7)\<close>, pawn 1 stands on its
  start cell \<open>(4, 8)\<close> and has placed one wall, from lattice point \<open>(4, 5)\<close> downwards
  (the segment \<open>(4.5, 5.5)\<close>--\<open>(4.5, 7.5)\<close>, between columns 4 and 5 beside rows 6 and 7).\<close>

definition s47 :: game where
  "s47 = \<lparr>grid = (replicate 9 (replicate 9 None))[4 := (replicate 9 None)[7 := Some 0, 8 := Some 1]],
     walls = [Wall_init (4, 5) (4, 7) False],
     players = [(Player_init ''darkgreen'' (4, 0) 10)\<lparr>position := (4, 7)\<rparr>,
                (Player_init ''slateblue'' (4, 8) 10)\<lparr>remaining_walls := 9\<rparr>],
     visited = {}, currplayer = 0, num_players = 2\<rparr>"

text \<open>The mirror image of \<open>s47\<close>: the wall stands on the other side of the pawn, between
  columns 3 and 4 beside rows 6 and 7.\<close>

definition s47m :: game where
  "s47m = s47\<lparr>walls := [Wall_init (3, 5) (3, 7) False]\<rparr>"


text \<open>A state in which the player to act has no wall left.\<close>

definition game2_spent :: game where
  "game2_spent = game2\<lparr>players := [(Player_init ''darkgreen'' (4, 0) 10)\<lparr>remaining_walls := 0\<rparr>,
                                   Player_init ''slateblue'' (4, 8) 10]\<rparr>"

text \<open>A two-player position with one wall of each player near the lower left corner: the
  segments \<open>(0.5, 5.5)\<close>--\<open>(0.5, 7.5)\<close> and \<open>(-0.5, 5.5)\<close>--\<open>(1.5, 5.5)\<close>. They close the
  cells \<open>(0, 6)\<close> and \<open>(0, 7)\<close> off, except downwards.\<close>

definition game2_corridor :: game where
  "game2_corridor = game2\<lparr>walls := [Wall_init (0, 5) (0, 7) False, Wall_init (1, 5) (-1, 5) False],
     players := [(Player_init ''darkgreen'' (4, 0) 10)\<lparr>remaining_walls := 9\<rparr>,
                 (Player_init ''slateblue'' (4, 8) 10)\<lparr>remaining_walls := 9\<rparr>]\<rparr>"

section \<open>Auxiliary notions\<close>

text \<open>The wall that \<^verbatim>\<open>possible_orients\<close>, \<^verbatim>\<open>best_wall\<close> and \<^verbatim>\<open>Board.place_wall\<close> build
  from a lattice point \<open>p\<close> and a direction \<open>d\<close>: \<^verbatim>\<open>Wall(p, p + 2 * d)\<close>.\<close>

definition cand :: "pos \<Rightarrow> pos \<Rightarrow> wall" where
  "cand p d = Wall_init p (fst p + 2 * fst d, snd p + 2 * snd d) False"

text \<open>The bounds test of \<^verbatim>\<open>possible_orients\<close> on the far end of the candidate.\<close>

definition in_range :: "pos \<Rightarrow> pos \<Rightarrow> bool" where
  "in_range p d \<longleftrightarrow> -1 \<le> fst p + 2 * fst d \<and> fst p + 2 * fst d < 9
                   \<and> -1 \<le> snd p + 2 * snd d \<and> snd p + 2 * snd d < 9"

text \<open>Direction \<open>d\<close> passes one iteration of \<^verbatim>\<open>possible_orients\<close> at \<open>p\<close>.\<close>

definition legal :: "nat \<Rightarrow> game \<Rightarrow> pos \<Rightarrow> pos \<Rightarrow> bool" where
  "legal n s p d \<longleftrightarrow> map_sum id fst (orient_step n s p d) = Inr [d]"

text \<open>A segment whose four coordinates are integers, and one whose four coordinates are
  integers plus one half.\<close>

definition on_cells :: "wall \<Rightarrow> bool" where
  "on_cells w \<longleftrightarrow> fst (wstart w) \<in> \<int> \<and> snd (wstart w) \<in> \<int> \<and> fst (wend w) \<in> \<int> \<and> snd (wend w) \<in> \<int>"

definition on_lattice :: "wall \<Rightarrow> bool" where
  "on_lattice w \<longleftrightarrow> fst (wstart w) - 1 / 2 \<in> \<int> \<and> snd (wstart w) - 1 / 2 \<in> \<int>
                    \<and> fst (wend w) - 1 / 2 \<in> \<int> \<and> snd (wend w) - 1 / 2 \<in> \<int>"

text \<open>A horizontal and a vertical segment of length 2, by their start points.\<close>

definition hseg :: "rat \<Rightarrow> rat \<Rightarrow> wall" where
  "hseg a b = \<lparr>wstart = (a, b), wend = (a + 2, b)\<rparr>"

definition vseg :: "rat \<Rightarrow> rat \<Rightarrow> wall" where
  "vseg a b = \<lparr>wstart = (a, b), wend = (a, b + 2)\<rparr>"

text \<open>The goal test of \<^verbatim>\<open>way_exists\<close> and \<^verbatim>\<open>bfs\<close>, and the cells that \<open>k\<close> successive
  members of \<^verbatim>\<open>possible_moves\<close> lead to from a cell.\<close>

definition at_goal :: "pos \<Rightarrow> pos \<Rightarrow> bool" where
  "at_goal c w \<longleftrightarrow> fst c = fst w \<or> snd c = snd w"

fun reach :: "game \<Rightarrow> nat \<Rightarrow> pos \<Rightarrow> pos set" where
  "reach s 0 a = {a}"
| "reach s (Suc k) a = (\<Union>b\<in>reach s k a. set (possible_moves s b))"

text \<open>The invariant of the loop of \<^verbatim>\<open>bfs\<close> started at \<open>a\<close>: every queued cell is reached
  in as many moves as its depth says, and every visited cell is still queued or is not a
  goal and has all its moves visited. The second definition is what the result satisfies.\<close>

definition bfs_inv :: "game \<Rightarrow> pos \<Rightarrow> pos \<Rightarrow> (pos \<times> int) list \<Rightarrow> bool" where
  "bfs_inv s a w q \<longleftrightarrow>
     (\<forall>e\<in>set q. 0 \<le> snd e \<and> fst e \<in> reach s (nat (snd e)) a)
     \<and> a \<in> visited s
     \<and> (\<forall>v\<in>visited s. v \<in> fst ` set q \<or> (\<not> at_goal v w \<and> set (possible_moves s v) \<subseteq> visited s))"

definition bfs_post :: "game \<Rightarrow> pos \<Rightarrow> pos \<Rightarrow> int \<Rightarrow> bool" where
  "bfs_post s a w r \<longleftrightarrow>
     (r = 1000000 \<and> (\<forall>k c. c \<in> reach s k a \<longrightarrow> \<not> at_goal c w))
     \<or> (0 \<le> r \<and> (\<exists>c. at_goal c w \<and> c \<in> reach s (nat r) a))"

text \<open>The list a loop of the validator returned; empty when it raised.\<close>

definition entries :: "py_error + 'a list \<times> game \<Rightarrow> 'a list" where
  "entries r = (case r of Inl e \<Rightarrow> [] | Inr x \<Rightarrow> fst x)"

text \<open>A wall of length 2 by its orientation and the lattice point of its canonical
  start.\<close>

definition lwall :: "bool \<Rightarrow> pos \<Rightarrow> wall" where
  "lwall horiz c = (if horiz then hseg (of_int (fst c) + 1 / 2) (of_int (snd c) + 1 / 2)
                    else vseg (of_int (fst c) + 1 / 2) (of_int (snd c) + 1 / 2))"

text \<open>The edges of the search of \<^verbatim>\<open>way_exists\<close>: a neighbour of \<open>b\<close> on the board with no
  wall on the edge from \<open>b\<close>; and the cells that \<open>k\<close> such steps lead to.\<close>

definition open_steps :: "game \<Rightarrow> pos \<Rightarrow> pos list" where
  "open_steps s b =
     filter (\<lambda>c. 0 \<le> fst c \<and> fst c < 9 \<and> 0 \<le> snd c \<and> snd c < 9 \<and> \<not> any_overlap s b c True)
       (map (\<lambda>d. (fst b + fst d, snd b + snd d)) DEFAULT)"

fun open_reach :: "game \<Rightarrow> nat \<Rightarrow> pos \<Rightarrow> pos set" where
  "open_reach s 0 a = {a}"
| "open_reach s (Suc k) a = (\<Union>b\<in>open_reach s k a. set (open_steps s b))"

text \<open>What makes the first goal cell that \<^verbatim>\<open>bfs\<close> dequeues a nearest one: the queue is
  sorted by depth, spans at most two depths, holds visited cells only, and no queued
  cell can be reached in fewer moves than its depth.\<close>

definition bfs_sorted :: "game \<Rightarrow> pos \<Rightarrow> (pos \<times> int) list \<Rightarrow> bool" where
  "bfs_sorted s a q \<longleftrightarrow>
     sorted (map snd q)
     \<and> (\<forall>e\<in>set q. snd e \<le> snd (hd q) + 1)
     \<and> (\<forall>e\<in>set q. \<forall>i. fst e \<in> reach s i a \<longrightarrow> snd e \<le> int i)
     \<and> fst ` set q \<subseteq> visited s"


section \<open>Lemmas\<close>

subsection \<open>The reachability search\<close>

lemma reset_fields [simp]:
  "walls (reset s) = walls s" "players (reset s) = players s" "grid (reset s) = grid s"
  "visited (reset s) = {}" "currplayer (reset s) = currplayer s" "num_players (reset s) = num_players s"
  "reset (reset s) = reset s" "reset (s\<lparr>visited := v\<rparr>) = reset s"
  by (simp_all add: reset_def)

lemma reset_eq_fields:
  assumes "reset s' = reset s"
  shows "walls s' = walls s" "players s' = players s" "grid s' = grid s"
    "currplayer s' = currplayer s" "num_players s' = num_players s"
proof -
  have "walls (reset s') = walls (reset s)" "players (reset s') = players (reset s)"
    "grid (reset s') = grid (reset s)" "currplayer (reset s') = currplayer (reset s)"
    "num_players (reset s') = num_players (reset s)"
    using assms by simp_all
  then show "walls s' = walls s" "players s' = players s" "grid s' = grid s"
    "currplayer s' = currplayer s" "num_players s' = num_players s"
    by simp_all
qed

lemma way_exists_frame:
  "way_exists n s node dest = Inr (b, s') \<Longrightarrow> reset s' = reset s \<and> visited s \<subseteq> visited s'"
  "way_exists_loop n s node dest ds = Inr (b, s') \<Longrightarrow> reset s' = reset s \<and> visited s \<subseteq> visited s'"
proof (induction n s node dest and n s node dest ds arbitrary: b s' and b s'
    rule: way_exists_way_exists_loop.induct)
  case (1 s node dest)
  then show ?case by simp
next
  case (2 n s node dest)
  show ?case
  proof (cases "fst node = fst dest \<or> snd node = snd dest")
    case True
    with 2(2) show ?thesis by auto
  next
    case False
    with 2(2) have "way_exists_loop n (s\<lparr>visited := insert node (visited s)\<rparr>) node dest DEFAULT = Inr (b, s')"
      by simp
    from 2(1) [OF False this] show ?thesis by auto
  qed
next
  case (3 n s node dest)
  then show ?case by simp
next
  case (4 n s node dest d ds)
  define en where "en = (fst node + fst d, snd node + snd d)"
  define ok where "ok \<longleftrightarrow> 0 \<le> fst en \<and> fst en < 9 \<and> 0 \<le> snd en \<and> snd en < 9
         \<and> en \<notin> visited s \<and> \<not> any_overlap s node en True"
  have step: "way_exists_loop n s node dest (d # ds) =
     (if ok then (case way_exists n s en dest of
              Inl e \<Rightarrow> Inl e
            | Inr (b, s') \<Rightarrow> if b then Inr (True, s') else way_exists_loop n s' node dest ds)
      else way_exists_loop n s node dest ds)"
    unfolding ok_def en_def by (simp only: way_exists_loop.simps Let_def)
  show ?case
  proof (cases ok)
    case False
    with 4(4) step have "way_exists_loop n s node dest ds = Inr (b, s')"
      by simp
    from 4(3) [OF en_def False [unfolded ok_def] this] show ?thesis .
  next
    case True
    show ?thesis
    proof (cases "way_exists n s en dest")
      case (Inl e)
      with True 4(4) step show ?thesis by simp
    next
      case (Inr r)
      obtain b1 s1 where r: "r = (b1, s1)" by (cases r)
      from 4(1) [OF en_def True [unfolded ok_def] Inr [unfolded r]]
      have f1: "reset s1 = reset s" "visited s \<subseteq> visited s1" by auto
      show ?thesis
      proof (cases b1)
        case True
        with \<open>ok\<close> Inr r 4(4) step have "s' = s1" by simp
        with f1 show ?thesis by simp
      next
        case False
        with \<open>ok\<close> Inr r 4(4) step have "way_exists_loop n s1 node dest ds = Inr (b, s')"
          by simp
        from 4(2) [OF en_def \<open>ok\<close> [unfolded ok_def] Inr [unfolded r] refl False this] f1
        show ?thesis by auto
      qed
    qed
  qed
qed

lemma card_cells: "card cells = 81"
  by (simp add: cells_def)


lemma card_cells_diff_insert:
  assumes "en \<in> cells" "en \<notin> v"
  shows "card (cells - insert en v) < card (cells - v)"
proof -
  have "cells - insert en v \<subset> cells - v" using assms by auto
  then show ?thesis using finite_cells by (intro psubset_card_mono) auto
qed

lemma card_cells_diff_mono:
  assumes "v \<subseteq> v'"
  shows "card (cells - v') \<le> card (cells - v)"
  using assms finite_cells by (intro card_mono) auto

lemma way_exists_total:
  "card (cells - insert node (visited s)) < n \<Longrightarrow> \<exists>r. way_exists n s node dest = Inr r"
  "card (cells - visited s) \<le> n \<Longrightarrow> \<exists>r. way_exists_loop n s node dest ds = Inr r"
proof (induction n s node dest and n s node dest ds
    rule: way_exists_way_exists_loop.induct)
  case (1 s node dest)
  then show ?case by simp
next
  case (2 n s node dest)
  show ?case
  proof (cases "fst node = fst dest \<or> snd node = snd dest")
    case True
    then show ?thesis by auto
  next
    case False
    from 2(2) have "card (cells - visited (s\<lparr>visited := insert node (visited s)\<rparr>)) \<le> n" by simp
    from 2(1) [OF False this] False show ?thesis by auto
  qed
next
  case (3 n s node dest)
  then show ?case by auto
next
  case (4 n s node dest d ds)
  define en where "en = (fst node + fst d, snd node + snd d)"
  define ok where "ok \<longleftrightarrow> 0 \<le> fst en \<and> fst en < 9 \<and> 0 \<le> snd en \<and> snd en < 9
         \<and> en \<notin> visited s \<and> \<not> any_overlap s node en True"
  have step: "way_exists_loop n s node dest (d # ds) =
     (if ok then (case way_exists n s en dest of
              Inl e \<Rightarrow> Inl e
            | Inr (b, s') \<Rightarrow> if b then Inr (True, s') else way_exists_loop n s' node dest ds)
      else way_exists_loop n s node dest ds)"
    unfolding ok_def en_def by (simp only: way_exists_loop.simps Let_def)
  show ?case
  proof (cases ok)
    case False
    from 4(3) [OF en_def False [unfolded ok_def] 4(4)] False step show ?thesis by auto
  next
    case True
    then have "en \<in> cells" "en \<notin> visited s"
      by (auto simp: ok_def cells_def mem_Times_iff)
    from card_cells_diff_insert [OF this] 4(4)
    have "card (cells - insert en (visited s)) < n" by simp
    from 4(1) [OF en_def True [unfolded ok_def] this]
    obtain r where Inr: "way_exists n s en dest = Inr r" by blast
    obtain b1 s1 where r: "r = (b1, s1)" by (cases r)
    show ?thesis
    proof (cases b1)
      case True
      with \<open>ok\<close> Inr r step show ?thesis by auto
    next
      case False
      from way_exists_frame(1) [OF Inr [unfolded r]] have "visited s \<subseteq> visited s1" by simp
      from card_cells_diff_mono [OF this] 4(4) have "card (cells - visited s1) \<le> n" by simp
      from 4(2) [OF en_def \<open>ok\<close> [unfolded ok_def] Inr [unfolded r] refl False this]
      show ?thesis using \<open>ok\<close> Inr r step False by auto
    qed
  qed
qed

lemma way_exists_reset_total:
  assumes "82 \<le> n"
  shows "\<exists>b s'. way_exists n (reset s) node dest = Inr (b, s')"
proof -
  have "card (cells - insert node (visited (reset s))) \<le> card cells"
    using finite_cells by (intro card_mono) auto
  with assms have "card (cells - insert node (visited (reset s))) < n"
    by (simp add: card_cells)
  from way_exists_total(1) [OF this] show ?thesis by auto
qed


lemma players_loop_frame:
  "players_loop n s ps = Inr (b, s') \<Longrightarrow> reset s' = reset s"
proof (induction ps arbitrary: s)
  case Nil
  then show ?case by simp
next
  case (Cons p ps)
  from Cons.prems obtain w where w: "wins p = Some w"
    by (cases "wins p") auto
  from Cons.prems w obtain b1 s1 where r: "way_exists n (reset s) (position p) w = Inr (b1, s1)"
    by (cases "way_exists n (reset s) (position p) w") auto
  from way_exists_frame(1) [OF r] have f: "reset s1 = reset s" by simp
  show ?case
  proof (cases b1)
    case True
    with Cons.prems w r have "players_loop n s1 ps = Inr (b, s')" by simp
    from Cons.IH [OF this] f show ?thesis by simp
  next
    case False
    with Cons.prems w r have "s' = s1" by simp
    with f show ?thesis by simp
  qed
qed

lemma players_loop_True:
  "players_loop n s ps = Inr (True, s') \<Longrightarrow> pl \<in> set ps \<Longrightarrow>
   \<exists>w s''. wins pl = Some w \<and> way_exists n (reset s) (position pl) w = Inr (True, s'')"
proof (induction ps arbitrary: s)
  case Nil
  then show ?case by simp
next
  case (Cons p ps)
  from Cons.prems(1) obtain w where w: "wins p = Some w"
    by (cases "wins p") auto
  from Cons.prems(1) w obtain b1 s1 where r: "way_exists n (reset s) (position p) w = Inr (b1, s1)"
    by (cases "way_exists n (reset s) (position p) w") auto
  from way_exists_frame(1) [OF r] have f: "reset s1 = reset s" by simp
  from Cons.prems(1) w r have b1: b1 by (cases b1) auto
  with Cons.prems(1) w r have rest: "players_loop n s1 ps = Inr (True, s')" by simp
  show ?case
  proof (cases "pl = p")
    case True
    with w r b1 show ?thesis by auto
  next
    case False
    with Cons.prems(2) have "pl \<in> set ps" by simp
    from Cons.IH [OF rest this] f show ?thesis by simp
  qed
qed

lemma players_loop_total:
  assumes "82 \<le> n"
  shows "\<forall>pl\<in>set ps. wins pl \<noteq> None \<Longrightarrow> \<exists>b s'. players_loop n s ps = Inr (b, s')"
proof (induction ps arbitrary: s)
  case Nil
  then show ?case by auto
next
  case (Cons p ps)
  then obtain w where w: "wins p = Some w" by auto
  from way_exists_reset_total [OF assms, of s "position p" w]
  obtain b1 s1 where r: "way_exists n (reset s) (position p) w = Inr (b1, s1)" by blast
  from Cons.IH [of s1] Cons.prems obtain b2 s2 where "players_loop n s1 ps = Inr (b2, s2)" by auto
  with w r show ?case by (cases b1) auto
qed

lemma players_loop_agree:
  "reset s = reset t \<Longrightarrow> map_sum id fst (players_loop n s ps) = map_sum id fst (players_loop n t ps)"
  by (cases ps) (auto split: option.splits)

lemma reset_walls_upd:
  "reset (x\<lparr>walls := ws\<rparr>) = (reset x)\<lparr>walls := ws\<rparr>"
  by (simp add: reset_def)

lemma reset_restore:
  assumes "reset s1 = reset (s\<lparr>walls := ws\<rparr>)"
  shows "reset (s1\<lparr>walls := walls s\<rparr>) = reset s"
proof -
  have "reset (s1\<lparr>walls := walls s\<rparr>) = (reset (s\<lparr>walls := ws\<rparr>))\<lparr>walls := walls s\<rparr>"
    using assms by (simp add: reset_walls_upd)
  also have "\<dots> = reset s" by (simp add: reset_def)
  finally show ?thesis .
qed

lemma orient_step_eq:
  "orient_step n s p d =
     (if in_range p d \<and> \<not> any_overlap s p (fst p + 2 * fst d, snd p + 2 * snd d) False then
        (case players_loop n (s\<lparr>walls := walls s @ [cand p d]\<rparr>) (players s) of
           Inl e \<Rightarrow> Inl e
         | Inr (can, s1) \<Rightarrow>
             (case del_last (walls s1) of
                Inl e \<Rightarrow> Inl e
              | Inr ws \<Rightarrow> Inr (if can then [d] else [], s1\<lparr>walls := ws\<rparr>)))
      else Inr ([], s))"
  by (simp add: orient_step_def Let_def cand_def in_range_def)

lemma orient_step_cases:
  assumes "orient_step n s p d = Inr (r, s')"
  obtains (skip) "r = []" "s' = s"
  | (tried) can s1 where "players_loop n (s\<lparr>walls := walls s @ [cand p d]\<rparr>) (players s) = Inr (can, s1)"
      "r = (if can then [d] else [])" "s' = s1\<lparr>walls := walls s\<rparr>"
      "in_range p d" "\<not> any_overlap s p (fst p + 2 * fst d, snd p + 2 * snd d) False"
proof (cases "in_range p d \<and> \<not> any_overlap s p (fst p + 2 * fst d, snd p + 2 * snd d) False")
  case False
  with assms have "r = []" "s' = s" by (auto simp: orient_step_eq)
  then show ?thesis by (rule skip)
next
  case True
  with assms obtain can s1 where
    pl: "players_loop n (s\<lparr>walls := walls s @ [cand p d]\<rparr>) (players s) = Inr (can, s1)"
    by (cases "players_loop n (s\<lparr>walls := walls s @ [cand p d]\<rparr>) (players s)")
       (auto simp: orient_step_eq)
  from players_loop_frame [OF pl] have "reset s1 = reset (s\<lparr>walls := walls s @ [cand p d]\<rparr>)" .
  from reset_eq_fields(1) [OF this] have w1: "walls s1 = walls s @ [cand p d]" by simp
  then have "del_last (walls s1) = Inr (walls s)" by (simp add: del_last_def)
  with assms True pl have "r = (if can then [d] else [])" "s' = s1\<lparr>walls := walls s\<rparr>"
    by (auto simp: orient_step_eq)
  with pl True show ?thesis by (intro tried) auto
qed

lemma orient_step_frame:
  assumes "orient_step n s p d = Inr (r, s')"
  shows "reset s' = reset s" "r = [] \<or> r = [d]"
proof -
  show "reset s' = reset s"
    using assms
  proof (cases rule: orient_step_cases)
    case skip
    then show ?thesis by simp
  next
    case (tried can s1)
    from players_loop_frame [OF tried(1)] tried(3) show ?thesis
      by (simp add: reset_restore)
  qed
  show "r = [] \<or> r = [d]"
    using assms by (cases rule: orient_step_cases) auto
qed

lemma orient_step_connected:
  assumes "orient_step n s p d = Inr (r, s')" "d' \<in> set r" "pl \<in> set (players s)"
  shows "d' = d \<and> (\<exists>w s''. wins pl = Some w \<and>
           way_exists n (reset (s\<lparr>walls := walls s @ [cand p d]\<rparr>)) (position pl) w = Inr (True, s''))"
  using assms(1)
proof (cases rule: orient_step_cases)
  case skip
  with assms(2) show ?thesis by simp
next
  case (tried can s1)
  with assms(2) have can: can and d': "d' = d" by (auto split: if_splits)
  from players_loop_True [OF tried(1) [unfolded can [THEN eqTrueI]] assms(3)] d'
  show ?thesis by simp
qed

lemma orient_step_total:
  assumes "82 \<le> n" "\<forall>pl\<in>set (players s). wins pl \<noteq> None"
  shows "\<exists>r s'. orient_step n s p d = Inr (r, s')"
proof (cases "in_range p d \<and> \<not> any_overlap s p (fst p + 2 * fst d, snd p + 2 * snd d) False")
  case False
  then show ?thesis by (auto simp: orient_step_eq)
next
  case True
  from players_loop_total [OF assms(1), of "players s" "s\<lparr>walls := walls s @ [cand p d]\<rparr>"] assms(2)
  obtain can s1 where
    pl: "players_loop n (s\<lparr>walls := walls s @ [cand p d]\<rparr>) (players s) = Inr (can, s1)" by blast
  from players_loop_frame [OF pl] have "reset s1 = reset (s\<lparr>walls := walls s @ [cand p d]\<rparr>)" .
  from reset_eq_fields(1) [OF this] have "walls s1 = walls s @ [cand p d]" by simp
  then have "del_last (walls s1) = Inr (walls s)" by (simp add: del_last_def)
  with True pl show ?thesis by (auto simp: orient_step_eq)
qed


lemma any_overlap_reset:
  "reset s = reset t \<Longrightarrow> any_overlap s a b f = any_overlap t a b f"
  using reset_eq_fields(1) [of s t] by (simp add: any_overlap_def)

lemma orient_step_fst:
  "map_sum id fst (orient_step n s p d) =
     (if in_range p d \<and> \<not> any_overlap s p (fst p + 2 * fst d, snd p + 2 * snd d) False
      then map_sum id (\<lambda>r. if fst r then [d] else [])
             (players_loop n (s\<lparr>walls := walls s @ [cand p d]\<rparr>) (players s))
      else Inr [])"
proof (cases "in_range p d \<and> \<not> any_overlap s p (fst p + 2 * fst d, snd p + 2 * snd d) False")
  case False
  then show ?thesis by (auto simp: orient_step_eq)
next
  case True
  show ?thesis
  proof (cases "players_loop n (s\<lparr>walls := walls s @ [cand p d]\<rparr>) (players s)")
    case (Inl e)
    with True show ?thesis by (simp add: orient_step_eq)
  next
    case (Inr r)
    obtain can s1 where r: "r = (can, s1)" by (cases r)
    from players_loop_frame [OF Inr [unfolded r]]
    have "reset s1 = reset (s\<lparr>walls := walls s @ [cand p d]\<rparr>)" .
    from reset_eq_fields(1) [OF this] have "walls s1 = walls s @ [cand p d]" by simp
    then have "del_last (walls s1) = Inr (walls s)" by (simp add: del_last_def)
    with True Inr r show ?thesis by (simp add: orient_step_eq)
  qed
qed

lemma legal_reset:
  assumes "reset s = reset t"
  shows "legal n s p d = legal n t p d"
proof -
  have w: "walls s = walls t" and pl: "players s = players t"
    using reset_eq_fields [OF assms] by simp_all
  have "reset (s\<lparr>walls := walls s @ [cand p d]\<rparr>) = reset (t\<lparr>walls := walls t @ [cand p d]\<rparr>)"
    using assms w by (simp add: reset_walls_upd)
  from players_loop_agree [OF this, of n "players s"]
  have "map_sum id (\<lambda>r. if r then [d] else [])
          (map_sum id fst (players_loop n (s\<lparr>walls := walls s @ [cand p d]\<rparr>) (players s)))
      = map_sum id (\<lambda>r. if r then [d] else [])
          (map_sum id fst (players_loop n (t\<lparr>walls := walls t @ [cand p d]\<rparr>) (players t)))"
    using pl by simp
  then have "map_sum id (\<lambda>r. if fst r then [d] else [])
          (players_loop n (s\<lparr>walls := walls s @ [cand p d]\<rparr>) (players s))
      = map_sum id (\<lambda>r. if fst r then [d] else [])
          (players_loop n (t\<lparr>walls := walls t @ [cand p d]\<rparr>) (players t))"
    by (simp add: sum.map_comp comp_def id_def)
  then show ?thesis
    unfolding legal_def orient_step_fst using any_overlap_reset [OF assms] by simp
qed

lemma orient_step_legal:
  assumes "orient_step n s p d = Inr (r, s')"
  shows "r = (if legal n s p d then [d] else [])"
  using orient_step_frame(2) [OF assms] assms by (auto simp: legal_def)

lemma possible_orients_loop_filter:
  "possible_orients_loop n s p ds ret = Inr (r, s') \<Longrightarrow>
   r = ret @ filter (legal n s p) ds \<and> reset s' = reset s"
proof (induction ds arbitrary: s ret)
  case Nil
  then show ?case by simp
next
  case (Cons d ds)
  from Cons.prems obtain r1 s1 where st: "orient_step n s p d = Inr (r1, s1)"
    by (cases "orient_step n s p d") auto
  with Cons.prems have rest: "possible_orients_loop n s1 p ds (ret @ r1) = Inr (r, s')" by simp
  from orient_step_frame(1) [OF st] have f: "reset s1 = reset s" .
  from legal_reset [OF f] have "legal n s1 p = legal n s p" by (intro ext)
  with Cons.IH [OF rest] f orient_step_legal [OF st] show ?case by simp
qed

lemma possible_orients_filter:
  assumes "possible_orients n s p = Inr (r, s')"
  shows "r = filter (legal n s p) DEFAULT" "reset s' = reset s"
  using possible_orients_loop_filter [OF assms [unfolded possible_orients_def]] by simp_all

lemma possible_orients_loop_total:
  assumes "82 \<le> n"
  shows "\<forall>pl\<in>set (players s). wins pl \<noteq> None \<Longrightarrow>
         \<exists>r s'. possible_orients_loop n s p ds ret = Inr (r, s')"
proof (induction ds arbitrary: s ret)
  case Nil
  then show ?case by simp
next
  case (Cons d ds)
  from orient_step_total [OF assms Cons.prems, of p d]
  obtain r1 s1 where st: "orient_step n s p d = Inr (r1, s1)" by blast
  from orient_step_frame(1) [OF st] have "players s1 = players s" by (rule reset_eq_fields)
  with Cons.prems have "\<forall>pl\<in>set (players s1). wins pl \<noteq> None" by simp
  from Cons.IH [OF this, of "ret @ r1"] st show ?case by simp
qed

lemma possible_orients_total:
  assumes "82 \<le> n" "\<forall>pl\<in>set (players s). wins pl \<noteq> None"
  shows "\<exists>r s'. possible_orients n s p = Inr (r, s')"
  unfolding possible_orients_def by (rule possible_orients_loop_total [OF assms])

lemma legal_connected:
  assumes "legal n s p d" "pl \<in> set (players s)"
  shows "\<exists>w s''. wins pl = Some w \<and>
           way_exists n (reset (s\<lparr>walls := walls s @ [cand p d]\<rparr>)) (position pl) w = Inr (True, s'')"
proof -
  from assms(1) obtain s' where "orient_step n s p d = Inr ([d], s')"
    by (cases "orient_step n s p d") (auto simp: legal_def)
  from orient_step_connected [OF this _ assms(2), of d] show ?thesis by simp
qed

lemma game2_wins: "\<forall>pl\<in>set (players game2). wins pl \<noteq> None"
  by (simp add: game2_def Player_init_def)

subsection \<open>The overlap test\<close>

lemma half_int_ne:
  "(of_int a :: rat) \<noteq> of_int b + 1 / 2" "(of_int b :: rat) + 1 / 2 \<noteq> of_int a"
proof -
  have "(of_int a :: rat) \<noteq> of_int b + 1 / 2"
  proof
    assume "(of_int a :: rat) = of_int b + 1 / 2"
    then have "(of_int (2 * a) :: rat) = of_int (2 * b + 1)" by simp
    then have "2 * a = 2 * b + 1" by (simp only: of_int_eq_iff)
    then show False by presburger
  qed
  then show "(of_int a :: rat) \<noteq> of_int b + 1 / 2" "(of_int b :: rat) + 1 / 2 \<noteq> of_int a"
    by auto
qed

lemma Ints_half_ne:
  assumes "a \<in> \<int>" "b - 1 / 2 \<in> \<int>"
  shows "(a :: rat) \<noteq> b" "b \<noteq> a"
proof -
  from assms obtain i j where "a = of_int i" "b - 1 / 2 = of_int j" by (auto elim!: Ints_cases)
  then have "a = of_int i" "b = of_int j + 1 / 2" by (simp_all add: algebra_simps)
  with half_int_ne [of i j] show "a \<noteq> b" "b \<noteq> a" by auto
qed

lemma probe_on_cells: "on_cells (Wall_init a b True)"
  by (simp add: on_cells_def Wall_init_def Let_def)

lemma wall_on_lattice: "on_lattice (Wall_init a b False)"
  by (simp add: on_lattice_def Wall_init_def Let_def)

lemma overlaps_cells_lattice:
  assumes "on_cells c" "on_lattice w"
  shows "overlaps c w \<longleftrightarrow>
           (snd (wstart c) < snd (wstart w) \<and> snd (wstart w) < snd (wend c)
              \<and> fst (wstart w) < fst (wstart c) \<and> fst (wstart c) < fst (wend w))
         \<or> (fst (wstart c) < fst (wstart w) \<and> fst (wstart w) < fst (wend c)
              \<and> snd (wstart w) < snd (wstart c) \<and> snd (wstart c) < snd (wend w))"
proof -
  have ne: "fst (wstart c) \<noteq> fst (wstart w)" "snd (wend c) \<noteq> snd (wend w)" "fst (wend c) \<noteq> fst (wend w)"
    using assms Ints_half_ne unfolding on_cells_def on_lattice_def by blast+
  have "wstart c \<noteq> wstart w" using ne(1) by auto
  with ne show ?thesis unfolding overlaps_def by simp
qed

lemma overlaps_lattice_cells:
  assumes "on_cells c" "on_lattice w"
  shows "overlaps w c \<longleftrightarrow>
           (snd (wstart w) < snd (wstart c) \<and> snd (wstart c) < snd (wend w)
              \<and> fst (wstart c) < fst (wstart w) \<and> fst (wstart w) < fst (wend c))
         \<or> (fst (wstart w) < fst (wstart c) \<and> fst (wstart c) < fst (wend w)
              \<and> snd (wstart c) < snd (wstart w) \<and> snd (wstart w) < snd (wend c))"
proof -
  have ne: "fst (wstart w) \<noteq> fst (wstart c)" "snd (wend w) \<noteq> snd (wend c)" "fst (wend w) \<noteq> fst (wend c)"
    using assms Ints_half_ne unfolding on_cells_def on_lattice_def by blast+
  have "wstart w \<noteq> wstart c" using ne(1) by auto
  with ne show ?thesis unfolding overlaps_def by simp
qed

lemma overlaps_probe_wall: "overlaps (Wall_init a b True) (Wall_init p q False)
     = overlaps (Wall_init p q False) (Wall_init a b True)"
  unfolding overlaps_cells_lattice [OF probe_on_cells wall_on_lattice]
    overlaps_lattice_cells [OF probe_on_cells wall_on_lattice]
  by blast


lemma cand_forms:
  "cand (x, y) (1, 0) = hseg (of_int x + 1 / 2) (of_int y + 1 / 2)"
  "cand (x, y) (-1, 0) = hseg (of_int x - 3 / 2) (of_int y + 1 / 2)"
  "cand (x, y) (0, 1) = vseg (of_int x + 1 / 2) (of_int y + 1 / 2)"
  "cand (x, y) (0, -1) = vseg (of_int x + 1 / 2) (of_int y - 3 / 2)"
  by (simp_all add: cand_def Wall_init_def hseg_def vseg_def Let_def)

lemma cand_seg:
  assumes "d \<in> set DEFAULT"
  shows "(\<exists>a b. cand p d = hseg a b) \<or> (\<exists>a b. cand p d = vseg a b)"
proof -
  obtain x y where p: "p = (x, y)" by (cases p)
  from assms have "d = (-1, 0) \<or> d = (1, 0) \<or> d = (0, -1) \<or> d = (0, 1)"
    by (auto simp: DEFAULT_def)
  then show ?thesis unfolding p using cand_forms [of x y] by metis
qed

lemma overlaps_hh: "overlaps (hseg a b) (hseg a' b') = overlaps (hseg a' b') (hseg a b)"
  unfolding overlaps_def hseg_def by (simp; linarith)

lemma overlaps_vv: "overlaps (vseg a b) (vseg a' b') = overlaps (vseg a' b') (vseg a b)"
  unfolding overlaps_def vseg_def by (simp; linarith)

lemma overlaps_hv: "overlaps (hseg a b) (vseg a' b') = overlaps (vseg a' b') (hseg a b)"
  unfolding overlaps_def hseg_def vseg_def by (simp; linarith)

lemma overlaps_wall_wall:
  assumes "d \<in> set DEFAULT" "d' \<in> set DEFAULT"
  shows "overlaps (cand p d) (cand p' d') = overlaps (cand p' d') (cand p d)"
  using cand_seg [OF assms(1), of p] cand_seg [OF assms(2), of p']
  by (auto simp: overlaps_hh overlaps_vv overlaps_hv)

subsection \<open>Breadth-first search\<close>

lemma any_overlap_visited [simp]: "any_overlap (s\<lparr>visited := v\<rparr>) a b f = any_overlap s a b f"
  by (simp add: any_overlap_def)

lemma possible_moves_dir_visited [simp]:
  "possible_moves_dir (s\<lparr>visited := v\<rparr>) p = possible_moves_dir s p"
  by (rule ext) (simp add: possible_moves_dir_def cong del: if_weak_cong let_weak_cong)

lemma possible_moves_visited [simp]: "possible_moves (s\<lparr>visited := v\<rparr>) p = possible_moves s p"
  by (simp add: possible_moves_def)

declare bfs_loop.simps [simp del]

lemma reach_visited [simp]: "reach (s\<lparr>visited := v\<rparr>) k a = reach s k a"
  by (induction k) simp_all

lemma bfs_enqueue_props:
  "bfs_enqueue ms dep vis q = (vis', q') \<Longrightarrow>
   vis' = vis \<union> set ms \<and> (\<exists>new. q' = q @ map (\<lambda>m. (m, dep + 1)) new \<and> set new = set ms - vis)"
proof (induction ms arbitrary: vis q)
  case Nil
  then have "vis' = vis" "q' = q @ map (\<lambda>m. (m, dep + 1)) []" by simp_all
  then show ?case by (intro conjI exI [of _ "[]"]) simp_all
next
  case (Cons m ms)
  show ?case
  proof (cases "m \<in> vis")
    case True
    with Cons.prems have "bfs_enqueue ms dep vis q = (vis', q')" by simp
    from Cons.IH [OF this] obtain new where
      v: "vis' = vis \<union> set ms" and
      q: "q' = q @ map (\<lambda>m. (m, dep + 1)) new" and
      n: "set new = set ms - vis" by blast
    have "vis' = vis \<union> set (m # ms)" using v True by auto
    moreover have "set new = set (m # ms) - vis" using n True by auto
    ultimately show ?thesis using q by blast
  next
    case False
    with Cons.prems have "bfs_enqueue ms dep (insert m vis) (q @ [(m, dep + 1)]) = (vis', q')" by simp
    from Cons.IH [OF this] obtain new where
      v: "vis' = insert m vis \<union> set ms" and
      q: "q' = (q @ [(m, dep + 1)]) @ map (\<lambda>m. (m, dep + 1)) new" and
      n: "set new = set ms - insert m vis" by blast
    have "q' = q @ map (\<lambda>m. (m, dep + 1)) (m # new)" using q by simp
    moreover have "set (m # new) = set (m # ms) - vis" using n False by auto
    moreover have "vis' = vis \<union> set (m # ms)" using v by auto
    ultimately show ?thesis by blast
  qed
qed

lemma closed_reach:
  assumes "a \<in> vis" "\<forall>v\<in>vis. set (possible_moves s v) \<subseteq> vis"
  shows "c \<in> reach s k a \<Longrightarrow> c \<in> vis"
  using assms by (induction k arbitrary: c) auto

lemma bfs_inv_step:
  assumes inv: "bfs_inv s a w ((cur, dep) # q)" and ng: "\<not> at_goal cur w"
    and enq: "bfs_enqueue (possible_moves s cur) dep (visited s) q = (vis', q')"
  shows "bfs_inv (s\<lparr>visited := vis'\<rparr>) a w q'"
proof -
  from bfs_enqueue_props [OF enq] obtain new where
    v: "vis' = visited s \<union> set (possible_moves s cur)" and
    q: "q' = q @ map (\<lambda>m. (m, dep + 1)) new" and
    n: "set new = set (possible_moves s cur) - visited s" by blast
  from inv have d: "0 \<le> dep" "cur \<in> reach s (nat dep) a"
    and old: "\<forall>e\<in>set q. 0 \<le> snd e \<and> fst e \<in> reach s (nat (snd e)) a"
    and a: "a \<in> visited s"
    and cl: "\<forall>v\<in>visited s. v \<in> fst ` set ((cur, dep) # q)
               \<or> (\<not> at_goal v w \<and> set (possible_moves s v) \<subseteq> visited s)"
    by (auto simp: bfs_inv_def)
  have nat: "nat (dep + 1) = Suc (nat dep)" using d(1) by simp
  have 1: "\<forall>e\<in>set q'. 0 \<le> snd e \<and> fst e \<in> reach s (nat (snd e)) a"
  proof
    fix e assume "e \<in> set q'"
    then consider "e \<in> set q" | m where "e = (m, dep + 1)" "m \<in> set (possible_moves s cur)"
      using q n by auto
    then show "0 \<le> snd e \<and> fst e \<in> reach s (nat (snd e)) a"
    proof cases
      case 1
      with old show ?thesis by blast
    next
      case 2
      with d nat show ?thesis by auto
    qed
  qed
  have 2: "\<forall>v\<in>vis'. v \<in> fst ` set q' \<or> (\<not> at_goal v w \<and> set (possible_moves s v) \<subseteq> vis')"
  proof
    fix x assume x: "x \<in> vis'"
    show "x \<in> fst ` set q' \<or> (\<not> at_goal x w \<and> set (possible_moves s x) \<subseteq> vis')"
    proof (cases "x \<in> visited s")
      case False
      with x v n have "x \<in> set new" by auto
      then have "x \<in> fst ` set q'" unfolding q by force
      then show ?thesis ..
    next
      case True
      with cl have "x = cur \<or> x \<in> fst ` set q
          \<or> (\<not> at_goal x w \<and> set (possible_moves s x) \<subseteq> visited s)" by auto
      then show ?thesis
      proof (elim disjE)
        assume "x = cur"
        with ng v show ?thesis by auto
      next
        assume "x \<in> fst ` set q"
        then show ?thesis unfolding q by auto
      next
        assume "\<not> at_goal x w \<and> set (possible_moves s x) \<subseteq> visited s"
        with v show ?thesis by auto
      qed
    qed
  qed
  from 1 2 a v show ?thesis by (simp add: bfs_inv_def)
qed

lemma bfs_post_visited [simp]: "bfs_post (s\<lparr>visited := v\<rparr>) a w r = bfs_post s a w r"
  by (simp add: bfs_post_def)

lemma bfs_loop_post:
  "bfs_inv s a w q \<Longrightarrow> bfs_post s a w (fst (bfs_loop s w q))"
proof (induction s w q rule: bfs_loop.induct)
  case (1 s w)
  then have "\<forall>v\<in>visited s. set (possible_moves s v) \<subseteq> visited s"
    and ng: "\<forall>v\<in>visited s. \<not> at_goal v w"
    and "a \<in> visited s"
    by (auto simp: bfs_inv_def)
  with closed_reach [of a "visited s" s] have "\<forall>k c. c \<in> reach s k a \<longrightarrow> c \<in> visited s"
    by blast
  with ng have "\<forall>k c. c \<in> reach s k a \<longrightarrow> \<not> at_goal c w" by blast
  then show ?case by (simp add: bfs_post_def bfs_loop.simps)
next
  case (2 s w cur dep q)
  show ?case
  proof (cases "at_goal cur w")
    case True
    from 2(2) have "0 \<le> dep" "cur \<in> reach s (nat dep) a" by (auto simp: bfs_inv_def)
    with True have "bfs_post s a w dep" unfolding bfs_post_def by blast
    moreover from True have "fst (bfs_loop s w ((cur, dep) # q)) = dep"
      by (simp add: bfs_loop.simps at_goal_def)
    ultimately show ?thesis by simp
  next
    case False
    obtain vis' q' where enq: "bfs_enqueue (possible_moves s cur) dep (visited s) q = (vis', q')"
      by (cases "bfs_enqueue (possible_moves s cur) dep (visited s) q")
    from bfs_inv_step [OF 2(2) False enq] have "bfs_inv (s\<lparr>visited := vis'\<rparr>) a w q'" .
    from 2(1) [OF False [unfolded at_goal_def] enq [symmetric] this]
    have "bfs_post s a w (fst (bfs_loop (s\<lparr>visited := vis'\<rparr>) w q'))" by simp
    moreover from False enq
    have "bfs_loop s w ((cur, dep) # q) = bfs_loop (s\<lparr>visited := vis'\<rparr>) w q'"
      by (simp add: bfs_loop.simps at_goal_def)
    ultimately show ?thesis by simp
  qed
qed

lemma bfs_post: "bfs_post s a w (fst (bfs s a w))"
proof -
  have "bfs_inv (s\<lparr>visited := {a}\<rparr>) a w [(a, 0)]" by (simp add: bfs_inv_def)
  from bfs_loop_post [OF this] have "bfs_post s a w (fst (bfs_loop (s\<lparr>visited := {a}\<rparr>) w [(a, 0)]))"
    by simp
  moreover have "bfs s a w = bfs_loop (s\<lparr>visited := {a}\<rparr>) w [(a, 0)]"
    by (simp add: bfs_def Let_def reset_def)
  ultimately show ?thesis by simp
qed

lemma bfs_at_goal:
  assumes "at_goal a w"
  shows "fst (bfs s a w) = 0"
proof -
  have "bfs s a w = bfs_loop (s\<lparr>visited := {a}\<rparr>) w [(a, 0)]"
    by (simp add: bfs_def Let_def reset_def)
  with assms show ?thesis by (simp add: bfs_loop.simps at_goal_def)
qed

subsection \<open>The enumeration of walls\<close>

lemma all_possible_walls_loop_concat:
  "all_possible_walls_loop n s ps ret = Inr (ws, s') \<Longrightarrow>
   ws = ret @ concat (map (\<lambda>p. map (Pair p) (filter (legal n s p) DEFAULT)) ps) \<and> reset s' = reset s"
proof (induction ps arbitrary: s ret)
  case Nil
  then show ?case by simp
next
  case (Cons p ps)
  from Cons.prems obtain os s1 where po: "possible_orients n s p = Inr (os, s1)"
    by (cases "possible_orients n s p") auto
  with Cons.prems have rest: "all_possible_walls_loop n s1 ps (ret @ map (Pair p) os) = Inr (ws, s')"
    by simp
  from possible_orients_filter [OF po] have os: "os = filter (legal n s p) DEFAULT"
    and f: "reset s1 = reset s" by simp_all
  from legal_reset [OF f] have "legal n s1 = legal n s" by (intro ext)
  with Cons.IH [OF rest] os f show ?case by simp
qed

lemma all_possible_walls_loop_total:
  assumes "82 \<le> n"
  shows "\<forall>pl\<in>set (players s). wins pl \<noteq> None \<Longrightarrow>
         \<exists>ws s'. all_possible_walls_loop n s ps ret = Inr (ws, s')"
proof (induction ps arbitrary: s ret)
  case Nil
  then show ?case by simp
next
  case (Cons p ps)
  from possible_orients_total [OF assms Cons.prems, of p]
  obtain os s1 where po: "possible_orients n s p = Inr (os, s1)" by blast
  from possible_orients_filter(2) [OF po] have "players s1 = players s" by (rule reset_eq_fields)
  with Cons.prems have "\<forall>pl\<in>set (players s1). wins pl \<noteq> None" by simp
  from Cons.IH [OF this, of "ret @ map (Pair p) os"] po show ?case by simp
qed

lemma all_possible_walls_concat:
  assumes "all_possible_walls n s = Inr (ws, s')"
  shows "ws = concat (map (\<lambda>p. map (Pair p) (filter (legal n s p) DEFAULT)) lattice)"
    "reset s' = reset s"
  using all_possible_walls_loop_concat [OF assms [unfolded all_possible_walls_def]] by simp_all

lemma all_possible_walls_total:
  assumes "82 \<le> n" "\<forall>pl\<in>set (players s). wins pl \<noteq> None"
  shows "\<exists>ws s'. all_possible_walls n s = Inr (ws, s')"
  unfolding all_possible_walls_def by (rule all_possible_walls_loop_total [OF assms])

lemma distinct_DEFAULT: "distinct DEFAULT"
  by (simp add: DEFAULT_def)

lemma distinct_lattice: "distinct lattice"
  by code_simp

lemma distinct_pairs:
  assumes "distinct ps" "\<And>p. distinct (g p)"
  shows "distinct (concat (map (\<lambda>p. map (Pair p) (g p)) ps))"
  using assms(1)
proof (induction ps)
  case Nil
  then show ?case by simp
next
  case (Cons p ps)
  have "distinct (map (Pair p) (g p))" using assms(2) by (simp add: distinct_map inj_on_def)
  moreover have "set (map (Pair p) (g p)) \<inter> set (concat (map (\<lambda>p. map (Pair p) (g p)) ps)) = {}"
    using Cons.prems by auto
  ultimately show ?case using Cons by simp
qed

lemma entry_dir:
  assumes "all_possible_walls n s = Inr (ws, s')" "e \<in> set ws"
  shows "snd e \<in> set DEFAULT" "fst e \<in> set lattice" "legal n s (fst e) (snd e)"
  using assms(2) unfolding all_possible_walls_concat(1) [OF assms(1)] by auto

lemma lwall_inj: "lwall h c = lwall h' c' \<longleftrightarrow> h = h' \<and> c = c'"
  by (cases c; cases c') (auto simp: lwall_def hseg_def vseg_def)

lemma cand_lwall:
  "cand (x, y) (1, 0) = lwall True (x, y)"
  "cand (x, y) (-1, 0) = lwall True (x - 2, y)"
  "cand (x, y) (0, 1) = lwall False (x, y)"
  "cand (x, y) (0, -1) = lwall False (x, y - 2)"
  by (simp_all add: cand_forms lwall_def)

lemma cand_eq:
  assumes "d \<in> set DEFAULT" "d' \<in> set DEFAULT" "cand p d = cand p' d'"
  shows "(p', d') = (p, d) \<or> (p' = (fst p + 2 * fst d, snd p + 2 * snd d) \<and> d' = (- fst d, - snd d))"
proof -
  obtain x y x' y' where p: "p = (x, y)" "p' = (x', y')" by (cases p; cases p')
  from assms(1) have d: "d = (-1, 0) \<or> d = (1, 0) \<or> d = (0, -1) \<or> d = (0, 1)"
    by (auto simp: DEFAULT_def)
  from assms(2) have d': "d' = (-1, 0) \<or> d' = (1, 0) \<or> d' = (0, -1) \<or> d' = (0, 1)"
    by (auto simp: DEFAULT_def)
  from d d' assms(3) show ?thesis
    unfolding p
    by (elim disjE) (simp_all add: cand_lwall lwall_inj)
qed


lemma game2_entry:
  assumes "p \<in> set lattice" "legal 82 game2 p d" "d \<in> set DEFAULT"
  shows "(p, d) \<in> set (entries (all_possible_walls 82 game2))"
proof -
  from all_possible_walls_total [OF _ game2_wins, of 82]
  obtain ws s' where a: "all_possible_walls 82 game2 = Inr (ws, s')" by auto
  from all_possible_walls_concat(1) [OF a] assms have "(p, d) \<in> set ws" by auto
  with a show ?thesis by (simp add: entries_def)
qed

subsection \<open>Frames of the bot's searches\<close>

lemma bfs_loop_frame: "reset (snd (bfs_loop s w q)) = reset s"
proof (induction s w q rule: bfs_loop.induct)
  case (1 s w)
  then show ?case by (simp add: bfs_loop.simps)
next
  case (2 s w cur dep q)
  show ?case
  proof (cases "fst cur = fst w \<or> snd cur = snd w")
    case True
    then show ?thesis by (simp add: bfs_loop.simps)
  next
    case False
    obtain vis' q' where enq: "bfs_enqueue (possible_moves s cur) dep (visited s) q = (vis', q')"
      by (cases "bfs_enqueue (possible_moves s cur) dep (visited s) q")
    from 2 [OF False enq [symmetric]] have "reset (snd (bfs_loop (s\<lparr>visited := vis'\<rparr>) w q')) = reset s"
      by simp
    with False enq show ?thesis by (simp add: bfs_loop.simps)
  qed
qed

lemma bfs_frame:
  assumes "bfs s a w = (d, s')"
  shows "reset s' = reset s"
proof -
  have "reset (snd (bfs s a w)) = reset s"
    unfolding bfs_def Let_def using bfs_loop_frame [of "(reset s)\<lparr>visited := insert a (visited (reset s))\<rparr>" w "[(a, 0)]"]
    by simp
  with assms show ?thesis by simp
qed

lemma score_loop_total:
  "\<forall>pl\<in>set ps. wins pl \<noteq> None \<Longrightarrow>
   \<exists>sc s'. score_loop s my_pos ps score = Inr (sc, s') \<and> reset s' = reset s"
proof (induction ps arbitrary: s score)
  case Nil
  then show ?case by simp
next
  case (Cons p ps)
  then obtain w where w: "wins p = Some w" by auto
  show ?case
  proof (cases "position p \<noteq> my_pos")
    case False
    with Cons.IH [of s score] Cons.prems show ?thesis by simp
  next
    case True
    obtain d s1 where b: "bfs s (position p) w = (d, s1)" by (cases "bfs s (position p) w")
    from bfs_frame [OF b] have f: "reset s1 = reset s" .
    from Cons.IH [of s1 "score + d"] Cons.prems obtain sc s' where
      "score_loop s1 my_pos ps (score + d) = Inr (sc, s')" "reset s' = reset s1" by auto
    with True w b f show ?thesis by simp
  qed
qed

lemma wall_score_total:
  assumes "\<forall>pl\<in>set (players s). wins pl \<noteq> None"
  shows "\<exists>sc s'. wall_score s my_pos win c = Inr (sc, s') \<and> reset s' = reset s"
proof -
  define s1 where "s1 = s\<lparr>walls := walls s @ [cand (fst c) (snd c)]\<rparr>"
  have pl: "players s1 = players s" by (simp add: s1_def)
  from score_loop_total [of "players s1" s1 my_pos 0] assms pl
  obtain sc s2 where sl: "score_loop s1 my_pos (players s1) 0 = Inr (sc, s2)"
    and f2: "reset s2 = reset s1" by auto
  obtain d s3 where b: "bfs s2 my_pos win = (d, s3)" by (cases "bfs s2 my_pos win")
  from bfs_frame [OF b] f2 have f3: "reset s3 = reset (s\<lparr>walls := walls s @ [cand (fst c) (snd c)]\<rparr>)"
    by (simp add: s1_def)
  from reset_eq_fields(1) [OF f3] have "walls s3 = walls s @ [cand (fst c) (snd c)]" by simp
  then have dl: "del_last (walls s3) = Inr (walls s)" by (simp add: del_last_def)
  have "wall_score s my_pos win c = Inr (sc - d, s3\<lparr>walls := walls s\<rparr>)"
    using sl b dl by (simp add: wall_score_def Let_def s1_def cand_def)
  moreover have "reset (s3\<lparr>walls := walls s\<rparr>) = reset s" by (rule reset_restore [OF f3])
  ultimately show ?thesis by blast
qed

lemma best_wall_loop_total:
  "\<forall>pl\<in>set (players s). wins pl \<noteq> None \<Longrightarrow>
   \<exists>bw s'. best_wall_loop s my_pos win cs bwall bscore = Inr (bw, s') \<and> reset s' = reset s"
proof (induction cs arbitrary: s bwall bscore)
  case Nil
  then show ?case by simp
next
  case (Cons c cs)
  from wall_score_total [OF Cons.prems, of my_pos win c]
  obtain sc s1 where ws: "wall_score s my_pos win c = Inr (sc, s1)" and f: "reset s1 = reset s"
    by blast
  from f have "players s1 = players s" by (rule reset_eq_fields)
  with Cons.prems have pl: "\<forall>pl\<in>set (players s1). wins pl \<noteq> None" by simp
  from Cons.IH [OF pl, of "Some c" sc] Cons.IH [OF pl, of bwall bscore] ws f
  show ?case by (cases "sc > bscore") auto
qed

lemma best_wall_total:
  assumes "82 \<le> n" "\<forall>pl\<in>set (players s). wins pl \<noteq> None"
  shows "\<exists>bw s'. best_wall n s my_pos win = Inr (bw, s') \<and> reset s' = reset s"
proof -
  from all_possible_walls_total [OF assms]
  obtain ws s1 where a: "all_possible_walls n s = Inr (ws, s1)" by blast
  from all_possible_walls_concat(2) [OF a] have f: "reset s1 = reset s" .
  then have "players s1 = players s" by (rule reset_eq_fields)
  with assms(2) have "\<forall>pl\<in>set (players s1). wins pl \<noteq> None" by simp
  from best_wall_loop_total [OF this, of my_pos win ws None "-1000"] a f
  show ?thesis by (auto simp: best_wall_def)
qed

subsection \<open>What the reachability search finds\<close>

lemma open_steps_walls: "walls s = walls t \<Longrightarrow> open_steps s = open_steps t"
  by (intro ext) (simp add: open_steps_def any_overlap_def)

lemma open_reach_walls:
  assumes "walls s = walls t"
  shows "open_reach s k a = open_reach t k a"
  by (induction k) (simp_all add: open_steps_walls [OF assms])

lemma open_reach_prepend:
  "b \<in> set (open_steps s a) \<Longrightarrow> c \<in> open_reach s k b \<Longrightarrow> c \<in> open_reach s (Suc k) a"
proof (induction k arbitrary: c)
  case 0
  then show ?case by simp
next
  case (Suc k)
  from Suc.prems(2) obtain m where m: "m \<in> open_reach s k b" "c \<in> set (open_steps s m)"
    by auto
  from Suc.IH [OF Suc.prems(1) m(1)] have "m \<in> open_reach s (Suc k) a" .
  with m(2) show ?case by (simp del: open_reach.simps add: open_reach.simps(2) [of s "Suc k"]) blast
qed

lemma way_exists_sound:
  "way_exists n s node dest = Inr (True, s') \<Longrightarrow>
     \<exists>k c. c \<in> open_reach s k node \<and> at_goal c dest"
  "way_exists_loop n s node dest ds = Inr (True, s') \<Longrightarrow> set ds \<subseteq> set DEFAULT \<Longrightarrow>
     \<exists>k c. c \<in> open_reach s (Suc k) node \<and> at_goal c dest"
proof (induction n s node dest and n s node dest ds arbitrary: s' and s'
    rule: way_exists_way_exists_loop.induct)
  case (1 s node dest)
  then show ?case by simp
next
  case (2 n s node dest)
  show ?case
  proof (cases "fst node = fst dest \<or> snd node = snd dest")
    case True
    then have "node \<in> open_reach s 0 node \<and> at_goal node dest" by (simp add: at_goal_def)
    then show ?thesis by blast
  next
    case False
    with 2(2) have "way_exists_loop n (s\<lparr>visited := insert node (visited s)\<rparr>) node dest DEFAULT = Inr (True, s')"
      by simp
    from 2(1) [OF False this] obtain k c where
      "c \<in> open_reach (s\<lparr>visited := insert node (visited s)\<rparr>) (Suc k) node" "at_goal c dest"
      by blast
    moreover have "open_reach (s\<lparr>visited := insert node (visited s)\<rparr>) (Suc k) node = open_reach s (Suc k) node"
      by (rule open_reach_walls) simp
    ultimately show ?thesis by blast
  qed
next
  case (3 n s node dest)
  then show ?case by simp
next
  case (4 n s node dest d ds)
  define en where "en = (fst node + fst d, snd node + snd d)"
  define ok where "ok \<longleftrightarrow> 0 \<le> fst en \<and> fst en < 9 \<and> 0 \<le> snd en \<and> snd en < 9
         \<and> en \<notin> visited s \<and> \<not> any_overlap s node en True"
  have step: "way_exists_loop n s node dest (d # ds) =
     (if ok then (case way_exists n s en dest of
              Inl e \<Rightarrow> Inl e
            | Inr (b, s') \<Rightarrow> if b then Inr (True, s') else way_exists_loop n s' node dest ds)
      else way_exists_loop n s node dest ds)"
    unfolding ok_def en_def by (simp only: way_exists_loop.simps Let_def)
  from 4(5) have sub: "set ds \<subseteq> set DEFAULT" and d: "d \<in> set DEFAULT" by simp_all
  show ?case
  proof (cases ok)
    case False
    with 4(4) step have "way_exists_loop n s node dest ds = Inr (True, s')" by simp
    from 4(3) [OF en_def False [unfolded ok_def] this sub] show ?thesis .
  next
    case True
    with d have en: "en \<in> set (open_steps s node)"
      by (auto simp: open_steps_def ok_def en_def)
    from True 4(4) step obtain b1 s1 where r: "way_exists n s en dest = Inr (b1, s1)"
      by (cases "way_exists n s en dest") auto
    show ?thesis
    proof (cases b1)
      case True
      from 4(1) [OF en_def \<open>ok\<close> [unfolded ok_def] r [unfolded True [THEN eqTrueI]]]
      obtain k c where "c \<in> open_reach s k en" "at_goal c dest" by blast
      with open_reach_prepend [OF en] show ?thesis by blast
    next
      case False
      with \<open>ok\<close> r 4(4) step have l: "way_exists_loop n s1 node dest ds = Inr (True, s')" by simp
      from 4(2) [OF en_def \<open>ok\<close> [unfolded ok_def] r refl False l sub]
      obtain k c where kc: "c \<in> open_reach s1 (Suc k) node" "at_goal c dest" by blast
      from way_exists_frame(1) [OF r] have "walls s1 = walls s" by (auto dest: reset_eq_fields(1))
      from open_reach_walls [OF this] kc show ?thesis by metis
    qed
  qed
qed

subsection \<open>The breadth-first search finds a nearest goal cell\<close>

lemma bfs_sorted_visited:
  "bfs_sorted (s\<lparr>visited := v\<rparr>) a q \<longleftrightarrow>
     sorted (map snd q)
     \<and> (\<forall>e\<in>set q. snd e \<le> snd (hd q) + 1)
     \<and> (\<forall>e\<in>set q. \<forall>i. fst e \<in> reach s i a \<longrightarrow> snd e \<le> int i)
     \<and> fst ` set q \<subseteq> v"
  by (simp add: bfs_sorted_def)

lemma first_waiting:
  assumes "bfs_inv s a w q"
  shows "c \<in> reach s i a \<Longrightarrow>
     c \<in> visited s - fst ` set q \<or> c \<in> fst ` set q
     \<or> (\<exists>x\<in>fst ` set q. \<exists>i0<i. x \<in> reach s i0 a)"
proof (induction i arbitrary: c)
  case 0
  with assms show ?case by (auto simp: bfs_inv_def)
next
  case (Suc i)
  from Suc.prems obtain b where b: "b \<in> reach s i a" "c \<in> set (possible_moves s b)" by auto
  from Suc.IH [OF b(1)] consider
    (finished) "b \<in> visited s - fst ` set q" | (queued) "b \<in> fst ` set q"
    | (earlier) "\<exists>x\<in>fst ` set q. \<exists>i0<i. x \<in> reach s i0 a" by blast
  then show ?case
  proof cases
    case finished
    with assms have "set (possible_moves s b) \<subseteq> visited s" by (auto simp: bfs_inv_def)
    with b(2) have "c \<in> visited s" by blast
    then show ?thesis by blast
  next
    case queued
    with b(1) have "\<exists>x\<in>fst ` set q. \<exists>i0<Suc i. x \<in> reach s i0 a" by blast
    then show ?thesis by blast
  next
    case earlier
    then obtain x i0 where "x \<in> fst ` set q" "i0 < i" "x \<in> reach s i0 a" by blast
    then have "\<exists>x\<in>fst ` set q. \<exists>i0<Suc i. x \<in> reach s i0 a" using less_SucI by blast
    then show ?thesis by blast
  qed
qed

lemma head_least:
  assumes "bfs_inv s a w ((cur, dep) # q)" "bfs_sorted s a ((cur, dep) # q)"
    and "c \<in> reach s k a" "c \<notin> visited s - fst ` set ((cur, dep) # q)"
  shows "dep \<le> int k" "c \<notin> fst ` set ((cur, dep) # q) \<Longrightarrow> dep + 1 \<le> int k"
proof -
  from assms(2) have low: "\<forall>e\<in>set ((cur, dep) # q). dep \<le> snd e"
    and exact: "\<forall>e\<in>set ((cur, dep) # q). \<forall>i. fst e \<in> reach s i a \<longrightarrow> snd e \<le> int i"
    by (auto simp: bfs_sorted_def)
  have q: "dep \<le> int i" if "x \<in> fst ` set ((cur, dep) # q)" "x \<in> reach s i a" for x i
  proof -
    from that(1) obtain e where e: "e \<in> set ((cur, dep) # q)" "fst e = x"
      unfolding image_iff by blast
    with exact that(2) have "snd e \<le> int i" by blast
    with low e(1) show ?thesis by force
  qed
  from first_waiting [OF assms(1) assms(3)] assms(4) consider
    (queued) "c \<in> fst ` set ((cur, dep) # q)"
    | (earlier) x i0 where "x \<in> fst ` set ((cur, dep) # q)" "i0 < k" "x \<in> reach s i0 a"
    by blast
  then show "dep \<le> int k"
  proof cases
    case queued
    from q [OF this assms(3)] show ?thesis .
  next
    case earlier
    from q [OF earlier(1) earlier(3)] earlier(2) show ?thesis by simp
  qed
  assume "c \<notin> fst ` set ((cur, dep) # q)"
  with first_waiting [OF assms(1) assms(3)] assms(4)
  obtain x i0 where "x \<in> fst ` set ((cur, dep) # q)" "i0 < k" "x \<in> reach s i0 a" by blast
  from q [OF this(1) this(3)] this(2) show "dep + 1 \<le> int k" by simp
qed

lemma bfs_sorted_step:
  assumes inv: "bfs_inv s a w ((cur, dep) # q)" and srt: "bfs_sorted s a ((cur, dep) # q)"
    and enq: "bfs_enqueue (possible_moves s cur) dep (visited s) q = (vis', q')"
  shows "bfs_sorted (s\<lparr>visited := vis'\<rparr>) a q'"
proof -
  from bfs_enqueue_props [OF enq] obtain new where
    v: "vis' = visited s \<union> set (possible_moves s cur)" and
    q: "q' = q @ map (\<lambda>m. (m, dep + 1)) new" and
    n: "set new = set (possible_moves s cur) - visited s" by blast
  from srt have s1: "sorted (map snd q)" and low: "\<forall>e\<in>set q. dep \<le> snd e"
    and up: "\<forall>e\<in>set q. snd e \<le> dep + 1"
    and exact: "\<forall>e\<in>set q. \<forall>i. fst e \<in> reach s i a \<longrightarrow> snd e \<le> int i"
    and sub: "fst ` set q \<subseteq> visited s"
    by (auto simp: bfs_sorted_def)
  have m: "map snd q' = map snd q @ replicate (length new) (dep + 1)"
    unfolding q by (simp add: comp_def map_replicate_const)
  have 1: "sorted (map snd q')"
    unfolding m using s1 up by (auto simp: sorted_append)
  have 2: "\<forall>e\<in>set q'. snd e \<le> snd (hd q') + 1"
  proof (cases q)
    case Nil
    then show ?thesis unfolding q by (cases new) auto
  next
    case (Cons e0 q0)
    then have "hd q' = e0" "e0 \<in> set q" unfolding q by simp_all
    with low have "dep \<le> snd (hd q')" by simp
    moreover have "\<forall>e\<in>set q'. snd e \<le> dep + 1" unfolding q using up by auto
    ultimately show ?thesis by force
  qed
  have 3: "\<forall>e\<in>set q'. \<forall>i. fst e \<in> reach s i a \<longrightarrow> snd e \<le> int i"
  proof (intro ballI allI impI)
    fix e i assume e: "e \<in> set q'" and r: "fst e \<in> reach s i a"
    from e consider "e \<in> set q" | "fst e \<in> set new" "snd e = dep + 1"
      unfolding q by auto
    then show "snd e \<le> int i"
    proof cases
      case 1
      with exact r show ?thesis by blast
    next
      case 2
      from 2(1) n have nv: "fst e \<notin> visited s" by auto
      from srt have "fst ` set ((cur, dep) # q) \<subseteq> visited s" by (simp add: bfs_sorted_def)
      with nv have "fst e \<notin> fst ` set ((cur, dep) # q)" by blast
      moreover from nv have "fst e \<notin> visited s - fst ` set ((cur, dep) # q)" by simp
      ultimately have "dep + 1 \<le> int i" using head_least(2) [OF inv srt r] by blast
      with 2(2) show ?thesis by simp
    qed
  qed
  have 4: "fst ` set q' \<subseteq> vis'"
    unfolding q v using sub n by auto
  from 1 2 3 4 show ?thesis by (simp add: bfs_sorted_visited)
qed

lemma bfs_loop_least:
  "bfs_inv s a w q \<Longrightarrow> bfs_sorted s a q \<Longrightarrow> c \<in> reach s k a \<Longrightarrow> at_goal c w \<Longrightarrow>
   fst (bfs_loop s w q) \<le> int k"
proof (induction s w q rule: bfs_loop.induct)
  case (1 s w)
  from 1(1) have "\<forall>v\<in>visited s. set (possible_moves s v) \<subseteq> visited s"
    and ng: "\<forall>v\<in>visited s. \<not> at_goal v w" and "a \<in> visited s"
    by (auto simp: bfs_inv_def)
  with closed_reach [of a "visited s" s c k] 1(3) have "c \<in> visited s" by blast
  with ng 1(4) show ?case by blast
next
  case (2 s w cur dep q)
  show ?case
  proof (cases "at_goal cur w")
    case True
    from 2(2) 2(5) have "c \<notin> visited s - fst ` set ((cur, dep) # q)"
      by (auto simp: bfs_inv_def)
    from head_least(1) [OF 2(2) 2(3) 2(4) this] have "dep \<le> int k" .
    moreover from True have "fst (bfs_loop s w ((cur, dep) # q)) = dep"
      by (simp add: bfs_loop.simps at_goal_def)
    ultimately show ?thesis by simp
  next
    case False
    obtain vis' q' where enq: "bfs_enqueue (possible_moves s cur) dep (visited s) q = (vis', q')"
      by (cases "bfs_enqueue (possible_moves s cur) dep (visited s) q")
    from bfs_inv_step [OF 2(2) False enq] have i: "bfs_inv (s\<lparr>visited := vis'\<rparr>) a w q'" .
    from bfs_sorted_step [OF 2(2) 2(3) enq] have o: "bfs_sorted (s\<lparr>visited := vis'\<rparr>) a q'" .
    from 2(4) have r: "c \<in> reach (s\<lparr>visited := vis'\<rparr>) k a" by simp
    from 2(1) [OF False [unfolded at_goal_def] enq [symmetric] i o r 2(5)]
    have "fst (bfs_loop (s\<lparr>visited := vis'\<rparr>) w q') \<le> int k" .
    moreover from False enq
    have "bfs_loop s w ((cur, dep) # q) = bfs_loop (s\<lparr>visited := vis'\<rparr>) w q'"
      by (simp add: bfs_loop.simps at_goal_def)
    ultimately show ?thesis by simp
  qed
qed

lemma bfs_least:
  assumes "c \<in> reach s k a" "at_goal c w"
  shows "fst (bfs s a w) \<le> int k"
proof -
  have i: "bfs_inv (s\<lparr>visited := {a}\<rparr>) a w [(a, 0)]" by (simp add: bfs_inv_def)
  have o: "bfs_sorted (s\<lparr>visited := {a}\<rparr>) a [(a, 0)]" by (simp add: bfs_sorted_visited)
  from assms(1) have r: "c \<in> reach (s\<lparr>visited := {a}\<rparr>) k a" by simp
  have "bfs s a w = bfs_loop (s\<lparr>visited := {a}\<rparr>) w [(a, 0)]"
    by (simp add: bfs_def Let_def reset_def)
  with bfs_loop_least [OF i o r assms(2)] show ?thesis by simp
qed

subsection \<open>Moving a pawn on the grid\<close>








subsection \<open>The enumeration of walls, point by point\<close>

lemma orient_step_agree:
  assumes "reset s = reset t"
  shows "map_sum id fst (orient_step n s p d) = map_sum id fst (orient_step n t p d)"
proof -
  have w: "walls s = walls t" and pl: "players s = players t"
    using reset_eq_fields [OF assms] by simp_all
  have "reset (s\<lparr>walls := walls s @ [cand p d]\<rparr>) = reset (t\<lparr>walls := walls t @ [cand p d]\<rparr>)"
    using assms w by (simp add: reset_walls_upd)
  from players_loop_agree [OF this, of n "players s"]
  have "map_sum id (\<lambda>r. if r then [d] else [])
          (map_sum id fst (players_loop n (s\<lparr>walls := walls s @ [cand p d]\<rparr>) (players s)))
      = map_sum id (\<lambda>r. if r then [d] else [])
          (map_sum id fst (players_loop n (t\<lparr>walls := walls t @ [cand p d]\<rparr>) (players t)))"
    using pl by simp
  then have "map_sum id (\<lambda>r. if fst r then [d] else [])
          (players_loop n (s\<lparr>walls := walls s @ [cand p d]\<rparr>) (players s))
      = map_sum id (\<lambda>r. if fst r then [d] else [])
          (players_loop n (t\<lparr>walls := walls t @ [cand p d]\<rparr>) (players t))"
    by (simp add: sum.map_comp comp_def id_def)
  then show ?thesis
    unfolding orient_step_fst using any_overlap_reset [OF assms] by simp
qed

lemma possible_orients_loop_agree:
  "reset s = reset t \<Longrightarrow>
   map_sum id fst (possible_orients_loop n s p ds ret) = map_sum id fst (possible_orients_loop n t p ds ret)"
proof (induction ds arbitrary: s t ret)
  case Nil
  then show ?case by simp
next
  case (Cons d ds)
  note a = orient_step_agree [OF Cons.prems, of n p d]
  show ?case
  proof (cases "orient_step n s p d")
    case (Inl e)
    with a have "orient_step n t p d = Inl e" by (cases "orient_step n t p d") auto
    with Inl show ?thesis by simp
  next
    case (Inr x)
    obtain r s1 where x: "x = (r, s1)" by (cases x)
    from a Inr x obtain t1 where t: "orient_step n t p d = Inr (r, t1)"
      by (cases "orient_step n t p d") auto
    from orient_step_frame(1) [OF Inr [unfolded x]] orient_step_frame(1) [OF t] Cons.prems
    have "reset s1 = reset t1" by simp
    from Cons.IH [OF this, of "ret @ r"] Inr x t show ?thesis by simp
  qed
qed

lemma entries_possible_orients_agree:
  assumes "reset s = reset t"
  shows "entries (possible_orients n s p) = entries (possible_orients n t p)"
proof -
  have e: "entries r = (case map_sum id fst r of Inl e \<Rightarrow> [] | Inr x \<Rightarrow> x)"
    for r :: "py_error + pos list \<times> game"
    by (cases r) (simp_all add: entries_def)
  from possible_orients_loop_agree [OF assms, of n p DEFAULT "[]"] show ?thesis
    unfolding e possible_orients_def by simp
qed

lemma all_possible_walls_loop_lists:
  "all_possible_walls_loop n s ps ret = Inr (ws, s') \<Longrightarrow>
   ws = ret @ concat (map (\<lambda>p. map (Pair p) (entries (possible_orients n s p))) ps)"
proof (induction ps arbitrary: s ret)
  case Nil
  then show ?case by simp
next
  case (Cons p ps)
  from Cons.prems obtain os s1 where po: "possible_orients n s p = Inr (os, s1)"
    by (cases "possible_orients n s p") auto
  with Cons.prems have rest: "all_possible_walls_loop n s1 ps (ret @ map (Pair p) os) = Inr (ws, s')"
    by simp
  from possible_orients_filter(2) [OF po] have f: "reset s1 = reset s" .
  have "(\<lambda>q. map (Pair q) (entries (possible_orients n s1 q)))
          = (\<lambda>q. map (Pair q) (entries (possible_orients n s q)))"
    using entries_possible_orients_agree [OF f] by (intro ext) simp
  with Cons.IH [OF rest] po show ?case by (simp add: entries_def)
qed

section \<open>Properties\<close>

subsection \<open>C10: the win check is a single-axis check on the board\<close>

text \<open>
  C10. \<^verbatim>\<open>Player.__init__\<close> sets \<^verbatim>\<open>wins\<close> to \<open>(g, -1)\<close> or to \<open>(-1, g)\<close> and the
  flag to \<^verbatim>\<open>False\<close>: the sentinel \<open>-1\<close> marks the unconstrained axis. For a
  position whose coordinates both lie in \<open>[0, 8]\<close> the sentinel never matches, so
  \<^verbatim>\<open>setpos\<close> raises the \<^verbatim>\<open>won\<close> flag exactly when the coordinate on the constrained
  axis equals \<open>g\<close> (a flag already set stays set).
\<close>

theorem setpos_single_axis:
  assumes "0 \<le> x" "x \<le> 8" "0 \<le> y" "y \<le> 8"
  shows "(wins p = Some (g, -1) \<longrightarrow>
            setpos p (x, y) = Inr (p\<lparr>position := (x, y), won := (won p \<or> x = g)\<rparr>))
       \<and> (wins p = Some (-1, g) \<longrightarrow>
            setpos p (x, y) = Inr (p\<lparr>position := (x, y), won := (won p \<or> y = g)\<rparr>))
       \<and> (snd p0 = 4 \<longrightarrow> wins (Player_init c p0 n) = Some (8 - fst p0, -1))
       \<and> (snd p0 \<noteq> 4 \<and> fst p0 = 4 \<longrightarrow> wins (Player_init c p0 n) = Some (-1, 8 - snd p0))
       \<and> \<not> won (Player_init c p0 n)"
  using assms by (cases p) (auto simp: setpos_def Let_def Player_init_def)

text \<open>The theorem at three inputs: the player starting on \<open>(4, 0)\<close> wins on row 8 and not
  on row 7, whatever the column; the player starting on \<open>(8, 4)\<close> wins on column 0.\<close>

theorem setpos_single_axis_witness:
  "setpos (Player_init ''darkgreen'' (4, 0) 10) (8, 8)
     = Inr ((Player_init ''darkgreen'' (4, 0) 10)\<lparr>position := (8, 8), won := True\<rparr>)
   \<and> setpos (Player_init ''gold'' (8, 4) 5) (0, 0)
     = Inr ((Player_init ''gold'' (8, 4) 5)\<lparr>position := (0, 0), won := True\<rparr>)
   \<and> setpos (Player_init ''darkgreen'' (4, 0) 10) (8, 7)
     = Inr ((Player_init ''darkgreen'' (4, 0) 10)\<lparr>position := (8, 7), won := False\<rparr>)"
  using setpos_single_axis [of 8 8 "Player_init ''darkgreen'' (4, 0) 10" 8]
        setpos_single_axis [of 0 0 "Player_init ''gold'' (8, 4) 5" 0]
        setpos_single_axis [of 8 7 "Player_init ''darkgreen'' (4, 0) 10" 8]
  by (simp add: Player_init_def)

subsection \<open>C4: side steps\<close>

text \<open>
  C4. In \<open>s47\<close> the pawn on \<open>(4, 7)\<close> looks down: the neighbour \<open>(4, 8)\<close> is occupied, the
  straight jump to \<open>(4, 9)\<close> is off the board, the side cell \<open>(5, 8)\<close> is on the board
  and empty, and no wall blocks the edge between \<open>(4, 8)\<close> and \<open>(5, 8)\<close> (the edge test
  \<^verbatim>\<open>any_overlap\<close> that the plain step uses says so). The claim makes \<open>(5, 8)\<close> a legal
  destination. \<^verbatim>\<open>possible_moves\<close> leaves it out: its probe runs from the pawn's own cell
  \<open>(4, 7)\<close> to \<open>(5, 8)\<close>, not from the neighbour, and that diagonal segment meets the wall
  beside \<open>(4, 7)\<close>. In the mirror image \<open>s47m\<close> the wall beside \<open>(4, 7)\<close> is on the left,
  and the left side cell \<open>(3, 8)\<close> is returned, as the claim says: the probe for that
  branch is swapped by the canonicalization and happens to test the edge between the
  neighbour and the side cell.
\<close>

theorem side_step_misses_free_cell:
  "cell (grid s47) 4 8 = Some 1
   \<and> \<not> (0 \<le> (7::int) + 2 \<and> (7::int) + 2 < 9)
   \<and> cell (grid s47) 5 8 = None
   \<and> \<not> any_overlap s47 (4, 8) (5, 8) True
   \<and> possible_moves s47 (4, 7) = [(3, 7), (4, 6), (3, 8)]
   \<and> (5, 8) \<notin> set (possible_moves s47 (4, 7))
   \<and> cell (grid s47m) 3 8 = None
   \<and> \<not> any_overlap s47m (4, 8) (3, 8) True
   \<and> any_overlap s47m (4, 7) (3, 7) True
   \<and> possible_moves s47m (4, 7) = [(5, 7), (4, 6), (5, 8), (3, 8)]"
  by code_simp

subsection \<open>C5: symmetry of the overlap test\<close>

text \<open>
  C5, as stated, fails: the jump probe from \<open>(0, 0)\<close> to \<open>(2, 0)\<close> contains the step
  probe from \<open>(0, 0)\<close> to \<open>(1, 0)\<close> and shares its start point. \<^verbatim>\<open>overlaps\<close> looks for an
  end point of its argument strictly inside the receiver, so it reports the overlap in
  one argument order only.
\<close>

theorem overlaps_asymmetric_counterexample:
  "overlaps (Wall_init (0, 0) (2, 0) True) (Wall_init (0, 0) (1, 0) True)
     \<noteq> overlaps (Wall_init (0, 0) (1, 0) True) (Wall_init (0, 0) (2, 0) True)"
  by (simp add: overlaps_def Wall_init_def)

text \<open>
  C5, amended. The engine calls \<^verbatim>\<open>overlaps\<close> with a placed wall as argument and, as
  receiver, either a candidate wall or a fake probe. On those pairs the test is symmetric:
  for two walls built from a lattice point and a direction of \<^verbatim>\<open>DEFAULT\<close> (both of
  length 2), and for any fake probe against such a wall.
\<close>

theorem overlaps_symmetric_in_engine:
  assumes "d \<in> set DEFAULT" "d' \<in> set DEFAULT"
  shows "overlaps (Wall_init p (fst p + 2 * fst d, snd p + 2 * snd d) False)
                  (Wall_init p' (fst p' + 2 * fst d', snd p' + 2 * snd d') False)
           = overlaps (Wall_init p' (fst p' + 2 * fst d', snd p' + 2 * snd d') False)
                      (Wall_init p (fst p + 2 * fst d, snd p + 2 * snd d) False)
       \<and> overlaps (Wall_init a b True) (Wall_init p (fst p + 2 * fst d, snd p + 2 * snd d) False)
           = overlaps (Wall_init p (fst p + 2 * fst d, snd p + 2 * snd d) False) (Wall_init a b True)"
  using overlaps_wall_wall [OF assms, of p p'] overlaps_probe_wall [of a b p]
  by (simp add: cand_def)

text \<open>Two crossing walls, and the probe of the step from \<open>(1, 0)\<close> to \<open>(2, 0)\<close> against
  the wall it crosses: each overlap is reported in both orders.\<close>

theorem overlaps_symmetric_in_engine_witness:
  "overlaps (Wall_init (0, 0) (2, 0) False) (Wall_init (1, 1) (1, -1) False)
   \<and> overlaps (Wall_init (1, 1) (1, -1) False) (Wall_init (0, 0) (2, 0) False)
   \<and> overlaps (Wall_init (1, 0) (2, 0) True) (Wall_init (1, 1) (1, -1) False)
   \<and> overlaps (Wall_init (1, 1) (1, -1) False) (Wall_init (1, 0) (2, 0) True)"
proof -
  have a: "overlaps (Wall_init (0, 0) (2, 0) False) (Wall_init (1, 1) (1, -1) False)"
    by code_simp
  have b: "overlaps (Wall_init (1, 0) (2, 0) True) (Wall_init (1, 1) (1, -1) False)"
    by code_simp
  have d: "(1, 0) \<in> set DEFAULT" "(0, -1) \<in> set DEFAULT"
    by (simp_all add: DEFAULT_def)
  from overlaps_symmetric_in_engine [OF d(1) d(2), of "(0, 0)" "(1, 1)"] a
    overlaps_symmetric_in_engine [OF d(2) d(2), of "(1, 1)" "(1, 1)" "(1, 0)" "(2, 0)"] b
  show ?thesis by simp
qed

subsection \<open>C2: a move that is not legal\<close>




subsection \<open>C6: a wall without budget\<close>

text \<open>
  C6, as stated, fails: with no wall left, \<^verbatim>\<open>make_move("wall", (0, 0), (1, 0))\<close> raises
  nothing: it appends the wall, takes the budget to \<open>-1\<close> and passes the turn.
\<close>

theorem make_move_wall_no_budget_counterexample:
  "remaining_walls (players game2_spent ! 0) = 0
   \<and> currplayer game2_spent = 0
   \<and> make_move game2_spent ''wall'' (0, 0) (Some (1, 0))
       = Inr (game2_spent\<lparr>walls := [Wall_init (0, 0) (2, 0) False],
               players := [(Player_init ''darkgreen'' (4, 0) 10)\<lparr>remaining_walls := -1\<rparr>,
                           Player_init ''slateblue'' (4, 8) 10],
               currplayer := 1\<rparr>)"
  by code_simp

text \<open>
  C6, amended. \<^verbatim>\<open>make_move\<close> with type \<^verbatim>\<open>"wall"\<close> checks nothing and rejects nothing:
  it appends the wall, takes one off the current player's budget, whatever the budget
  is, and advances the current-player index. The guard on the budget is upstream:
  \<^verbatim>\<open>possible_walls\<close> returns the empty list, and leaves the state alone, for a player
  whose budget is 0, so that the caller is offered no wall to place.
\<close>

theorem make_move_wall_unchecked:
  assumes "py_index (length (players s)) (currplayer s) = Some i"
    and "num_players s \<noteq> 0"
  shows "make_move s ''wall'' p (Some d) =
           Inr (s\<lparr>walls := walls s @ [Wall_init p (fst p + 2 * fst d, snd p + 2 * snd d) False],
                  players := (players s)[i := (players s ! i)\<lparr>remaining_walls :=
                                remaining_walls (players s ! i) - 1\<rparr>],
                  currplayer := (currplayer s + 1) mod num_players s\<rparr>)
       \<and> (remaining_walls pl = 0 \<longrightarrow> possible_walls n s pl = Inr ([], s))"
  using assms
  by (auto simp: make_move_def Board_place_wall_def place_wall_def next_player_def possible_walls_def)

text \<open>A wall placed in the fresh game takes the budget from 10 to 9; with the budget at 0,
  \<^verbatim>\<open>possible_walls\<close> offers nothing.\<close>

theorem make_move_wall_unchecked_witness:
  "make_move game2 ''wall'' (0, 0) (Some (1, 0)) =
     Inr (game2\<lparr>walls := [Wall_init (0, 0) (2, 0) False],
            players := [(Player_init ''darkgreen'' (4, 0) 10)\<lparr>remaining_walls := 9\<rparr>,
                        Player_init ''slateblue'' (4, 8) 10],
            currplayer := 1\<rparr>)
   \<and> possible_walls 82 game2_spent (players game2_spent ! 0) = Inr ([], game2_spent)"
proof -
  have 1: "py_index (length (players game2)) (currplayer game2) = Some 0" by code_simp
  have 2: "num_players game2 \<noteq> 0" by code_simp
  have 3: "py_index (length (players game2_spent)) (currplayer game2_spent) = Some 0" by code_simp
  have 4: "num_players game2_spent \<noteq> 0" by code_simp
  have 5: "remaining_walls (players game2_spent ! 0) = 0" by code_simp
  from make_move_wall_unchecked [OF 1 2, of "(0, 0)" "(1, 0)"]
    make_move_wall_unchecked [OF 3 4, of "(0, 0)" "(1, 0)" "players game2_spent ! 0" 82] 5
  show ?thesis by (simp add: game2_def Player_init_def)
qed

subsection \<open>C1: a wall that is offered leaves every player a path\<close>

text \<open>
  C1. If \<^verbatim>\<open>possible_orients(p)\<close> returns a list that contains the direction \<open>d\<close>, then
  for every player \<^verbatim>\<open>way_exists\<close>, run on a freshly reset validator whose wall list has
  the wall from \<open>p\<close> to \<open>p + 2d\<close> appended, returns \<^verbatim>\<open>True\<close> from that player's
  position to that player's goal; and with that wall on the board a chain of steps
  between neighbouring cells, none across a wall, leads from the player's position to a
  cell that meets the player's goal. So a wall that cuts the last connection of a player
  is never returned.
\<close>

theorem possible_orients_keeps_paths:
  assumes "possible_orients n s p = Inr (ds, s')" "d \<in> set ds" "pl \<in> set (players s)"
  shows "\<exists>w s''. wins pl = Some w
           \<and> way_exists n (reset (s\<lparr>walls := walls s @ [Wall_init p (fst p + 2 * fst d, snd p + 2 * snd d) False]\<rparr>))
               (position pl) w = Inr (True, s'')
           \<and> (\<exists>k c. c \<in> open_reach (s\<lparr>walls := walls s @ [Wall_init p (fst p + 2 * fst d, snd p + 2 * snd d) False]\<rparr>)
                        k (position pl) \<and> at_goal c w)"
proof -
  let ?t = "s\<lparr>walls := walls s @ [Wall_init p (fst p + 2 * fst d, snd p + 2 * snd d) False]\<rparr>"
  from possible_orients_filter(1) [OF assms(1)] assms(2) have "legal n s p d" by simp
  from legal_connected [OF this assms(3)] obtain w s'' where
    w: "wins pl = Some w" and r: "way_exists n (reset ?t) (position pl) w = Inr (True, s'')"
    by (auto simp: cand_def)
  from way_exists_sound(1) [OF r] obtain k c where
    "c \<in> open_reach (reset ?t) k (position pl)" "at_goal c w" by blast
  moreover have "open_reach (reset ?t) k (position pl) = open_reach ?t k (position pl)"
    by (rule open_reach_walls) simp
  ultimately show ?thesis using w r by blast
qed

text \<open>In the fresh two-player game the direction \<open>(1, 0)\<close> is offered at \<open>(0, 0)\<close>, and
  with that wall the pawn on \<open>(4, 0)\<close> still reaches row 8.\<close>

theorem possible_orients_keeps_paths_witness:
  "(\<exists>ds s'. possible_orients 82 game2 (0, 0) = Inr (ds, s') \<and> (1, 0) \<in> set ds)
   \<and> (\<exists>s''. way_exists 82 (reset (game2\<lparr>walls := walls game2 @ [Wall_init (0, 0) (2, 0) False]\<rparr>))
               (4, 0) (-1, 8) = Inr (True, s''))
   \<and> (\<exists>k c. c \<in> open_reach (game2\<lparr>walls := walls game2 @ [Wall_init (0, 0) (2, 0) False]\<rparr>) k (4, 0)
               \<and> at_goal c (-1, 8))"
proof -
  from possible_orients_total [OF _ game2_wins, of 82 "(0, 0)"]
  obtain ds s' where po: "possible_orients 82 game2 (0, 0) = Inr (ds, s')" by auto
  have "legal 82 game2 (0, 0) (1, 0)" unfolding legal_def by code_simp
  with possible_orients_filter(1) [OF po] have d: "(1, 0) \<in> set ds" by (simp add: DEFAULT_def)
  have pl: "Player_init ''darkgreen'' (4, 0) 10 \<in> set (players game2)" by (simp add: game2_def)
  from possible_orients_keeps_paths [OF po d pl] po d show ?thesis
    by (auto simp: Player_init_def)
qed

subsection \<open>C8: the visited set between two searches\<close>

text \<open>
  C8, as stated, fails: \<^verbatim>\<open>way_exists\<close> does not reset \<^verbatim>\<open>self.visited\<close>. In
  \<open>game2_corridor\<close> a first call from \<open>(0, 6)\<close> to row 8 returns \<^verbatim>\<open>True\<close> and leaves
  \<open>(0, 6)\<close> and \<open>(0, 7)\<close> in the set; the same call again, on the same board, returns
  \<^verbatim>\<open>False\<close>.
\<close>

theorem way_exists_twice_counterexample:
  "way_exists 82 (reset game2_corridor) (0, 6) (-1, 8)
     = Inr (True, game2_corridor\<lparr>visited := {(0, 6), (0, 7)}\<rparr>)
   \<and> way_exists 82 (game2_corridor\<lparr>visited := {(0, 6), (0, 7)}\<rparr>) (0, 6) (-1, 8)
     = Inr (False, game2_corridor\<lparr>visited := {(0, 6), (0, 7)}\<rparr>)"
  by code_simp

text \<open>
  C8, amended. The reset is the caller's: \<^verbatim>\<open>possible_orients\<close> calls \<^verbatim>\<open>reset()\<close> before
  every \<^verbatim>\<open>way_exists\<close>. A search that starts from a reset validator (with room for 82
  nested calls) returns, and its result does not depend on what the visited set held
  before the reset: the same search after another reset, on the state the first one
  left or on any state that differs in the visited set only, returns the same.
\<close>

theorem way_exists_after_reset:
  assumes "82 \<le> n"
  shows "\<exists>b s1. way_exists n (reset s) node dest = Inr (b, s1)
           \<and> way_exists n (reset s1) node dest = Inr (b, s1)
           \<and> way_exists n (reset (s\<lparr>visited := v\<rparr>)) node dest = Inr (b, s1)"
proof -
  from way_exists_reset_total [OF assms, of s node dest]
  obtain b s1 where r: "way_exists n (reset s) node dest = Inr (b, s1)" by blast
  from way_exists_frame(1) [OF r] have "reset s1 = reset s" by simp
  with r show ?thesis by simp
qed

theorem way_exists_after_reset_witness:
  "way_exists 82 (reset game2_corridor) (0, 6) (-1, 8)
     = Inr (True, game2_corridor\<lparr>visited := {(0, 6), (0, 7)}\<rparr>)
   \<and> way_exists 82 (reset (game2_corridor\<lparr>visited := {(0, 6), (0, 7)}\<rparr>)) (0, 6) (-1, 8)
     = Inr (True, game2_corridor\<lparr>visited := {(0, 6), (0, 7)}\<rparr>)"
proof -
  have e: "way_exists 82 (reset game2_corridor) (0, 6) (-1, 8)
     = Inr (True, game2_corridor\<lparr>visited := {(0, 6), (0, 7)}\<rparr>)" by code_simp
  from way_exists_after_reset [of 82 game2_corridor "(0, 6)" "(-1, 8)" "{(0, 6), (0, 7)}"] e
  show ?thesis by auto
qed

subsection \<open>C7: the result of the breadth-first search\<close>

text \<open>
  C7. \<^verbatim>\<open>bfs(pos, wins)\<close> returns 0 exactly when \<open>pos\<close> itself meets the goal test. When
  some cell that meets the goal test can be reached from \<open>pos\<close> by successive members of
  \<^verbatim>\<open>possible_moves\<close>, the result is the depth of the first such cell dequeued: a number
  of moves that lead from \<open>pos\<close> to a goal cell, and no goal cell is reached in fewer.
  When no goal cell can be reached, the result is the sentinel 1000000.
\<close>

theorem bfs_depth:
  "(fst (bfs s a w) = 0 \<longleftrightarrow> fst a = fst w \<or> snd a = snd w)
   \<and> ((\<exists>k c. c \<in> reach s k a \<and> at_goal c w) \<longrightarrow>
        0 \<le> fst (bfs s a w)
        \<and> (\<exists>c. c \<in> reach s (nat (fst (bfs s a w))) a \<and> at_goal c w)
        \<and> (\<forall>k c. c \<in> reach s k a \<and> at_goal c w \<longrightarrow> fst (bfs s a w) \<le> int k))
   \<and> (\<not> (\<exists>k c. c \<in> reach s k a \<and> at_goal c w) \<longrightarrow> fst (bfs s a w) = 1000000)"
proof -
  define r where "r = fst (bfs s a w)"
  have post: "bfs_post s a w r" unfolding r_def by (rule bfs_post)
  have 1: "r = 0" if "fst a = fst w \<or> snd a = snd w"
    unfolding r_def using that bfs_at_goal [of a w s] by (simp add: at_goal_def)
  have 2: "fst a = fst w \<or> snd a = snd w" if "r = 0"
  proof -
    from post that have "\<exists>c. at_goal c w \<and> c \<in> reach s 0 a"
      unfolding bfs_post_def by auto
    then show ?thesis by (auto simp: at_goal_def)
  qed
  have 3: "0 \<le> r \<and> (\<exists>c. c \<in> reach s (nat r) a \<and> at_goal c w)"
    if "\<exists>k c. c \<in> reach s k a \<and> at_goal c w"
    using post that unfolding bfs_post_def by blast
  have 4: "r = 1000000" if "\<not> (\<exists>k c. c \<in> reach s k a \<and> at_goal c w)"
    using post that unfolding bfs_post_def by blast
  have 5: "\<forall>k c. c \<in> reach s k a \<and> at_goal c w \<longrightarrow> r \<le> int k"
    unfolding r_def using bfs_least by blast
  from 1 2 3 4 5 show ?thesis unfolding r_def by blast
qed

text \<open>In the fresh two-player game: 0 from a cell of row 8, and 8 from \<open>(4, 0)\<close> to row 8,
  where \<open>(5, 8)\<close> is reached in 8 moves.\<close>

theorem bfs_depth_witness:
  "fst (bfs game2 (4, 8) (-1, 8)) = 0
   \<and> fst (bfs game2 (4, 0) (-1, 8)) = 8
   \<and> (\<exists>c. c \<in> reach game2 8 (4, 0) \<and> at_goal c (-1, 8))"
proof -
  have e: "fst (bfs game2 (4, 0) (-1, 8)) = 8" by code_simp
  have r: "(5, 8) \<in> reach game2 8 (4, 0)" by code_simp
  have g: "at_goal (5, 8) (-1, 8)" by (simp add: at_goal_def)
  from r g have ex: "\<exists>k c. c \<in> reach game2 k (4, 0) \<and> at_goal c (-1, 8)" by blast
  from bfs_depth [of game2 "(4, 8)" "(-1, 8)"] have z: "fst (bfs game2 (4, 8) (-1, 8)) = 0" by simp
  from bfs_depth [of game2 "(4, 0)" "(-1, 8)"] ex e
  have "\<exists>c. c \<in> reach game2 8 (4, 0) \<and> at_goal c (-1, 8)" by simp
  with z e show ?thesis by simp
qed

subsection \<open>C9: the entries of the wall enumeration\<close>

text \<open>
  C9, as stated, fails: \<^verbatim>\<open>all_possible_walls\<close> merges nothing. In the fresh two-player
  game its list has the entry \<open>((0, 0), (1, 0))\<close> and the entry \<open>((2, 0), (-1, 0))\<close>, and
  both denote the canonical segment \<open>(0.5, 0.5)\<close>--\<open>(2.5, 0.5)\<close>.
\<close>

theorem all_possible_walls_duplicate_counterexample:
  "((0, 0), (1, 0)) \<in> set (entries (all_possible_walls 82 game2))
   \<and> ((2, 0), (-1, 0)) \<in> set (entries (all_possible_walls 82 game2))
   \<and> Wall_init (0, 0) (2, 0) False = Wall_init (2, 0) (0, 0) False"
proof -
  have l: "(0, 0) \<in> set lattice" "(2, 0) \<in> set lattice" by code_simp+
  have g: "legal 82 game2 (0, 0) (1, 0)" "legal 82 game2 (2, 0) (-1, 0)"
    unfolding legal_def by code_simp+
  have d: "(1, 0) \<in> set DEFAULT" "(-1, 0) \<in> set DEFAULT" by (simp_all add: DEFAULT_def)
  have w: "Wall_init (0, 0) (2, 0) False = Wall_init (2, 0) (0, 0) False" by code_simp
  from game2_entry [OF l(1) g(1) d(1)] game2_entry [OF l(2) g(2) d(2)] w show ?thesis by simp
qed

text \<open>
  C9, amended. \<^verbatim>\<open>all_possible_walls\<close> merges nothing: the list it returns is, lattice
  point by lattice point in the order of its two loops, every direction that
  \<^verbatim>\<open>possible_orients\<close> returns at that point, each paired with the point. No
  (lattice point, direction) pair is listed twice, and two distinct entries denote the
  same canonical segment only when one describes it from its other end: \<open>(p, d)\<close> and
  \<open>(p + 2d, -d)\<close>. So a canonical segment has at most two entries.
\<close>

theorem all_possible_walls_entries:
  assumes "all_possible_walls n s = Inr (ws, s')"
  shows "ws = concat (map (\<lambda>p. map (Pair p) (entries (possible_orients n s p))) lattice)
       \<and> distinct ws
       \<and> (\<forall>e\<in>set ws. \<forall>e'\<in>set ws. cand (fst e) (snd e) = cand (fst e') (snd e') \<longrightarrow>
            e' = e \<or> (fst e' = (fst (fst e) + 2 * fst (snd e), snd (fst e) + 2 * snd (snd e))
                       \<and> snd e' = (- fst (snd e), - snd (snd e))))"
proof -
  have 0: "ws = concat (map (\<lambda>p. map (Pair p) (entries (possible_orients n s p))) lattice)"
    using all_possible_walls_loop_lists [OF assms [unfolded all_possible_walls_def]] by simp
  have "distinct (concat (map (\<lambda>p. map (Pair p) (filter (legal n s p) DEFAULT)) lattice))"
    by (rule distinct_pairs [OF distinct_lattice]) (simp add: distinct_DEFAULT)
  then have 1: "distinct ws" by (simp add: all_possible_walls_concat(1) [OF assms])
  have 2: "e' = e \<or> (fst e' = (fst (fst e) + 2 * fst (snd e), snd (fst e) + 2 * snd (snd e))
                       \<and> snd e' = (- fst (snd e), - snd (snd e)))"
    if "e \<in> set ws" "e' \<in> set ws" "cand (fst e) (snd e) = cand (fst e') (snd e')" for e e'
    using cand_eq [OF entry_dir(1) [OF assms that(1)] entry_dir(1) [OF assms that(2)] that(3)]
    by (cases e; cases e') auto
  from 0 1 2 show ?thesis by blast
qed

text \<open>In the fresh two-player game the list is the concatenation of what
  \<^verbatim>\<open>possible_orients\<close> returns, which is not empty at \<open>(0, 0)\<close> and at \<open>(2, 0)\<close>; it has
  no repeated entry, and the two entries of the counterexample are the two descriptions
  of one segment.\<close>

theorem all_possible_walls_entries_witness:
  "entries (all_possible_walls 82 game2)
     = concat (map (\<lambda>p. map (Pair p) (entries (possible_orients 82 game2 p))) lattice)
   \<and> entries (possible_orients 82 game2 (0, 0)) = [(1, 0), (0, 1)]
   \<and> entries (possible_orients 82 game2 (2, 0)) = [(-1, 0), (1, 0), (0, 1)]
   \<and> distinct (entries (all_possible_walls 82 game2))
   \<and> ((0, 0), (1, 0)) \<in> set (entries (all_possible_walls 82 game2))
   \<and> ((2, 0), (-1, 0)) \<in> set (entries (all_possible_walls 82 game2))
   \<and> (2, 0) = ((0::int) + 2 * 1, (0::int) + 2 * 0)"
proof -
  from all_possible_walls_total [OF _ game2_wins, of 82]
  obtain ws s' where a: "all_possible_walls 82 game2 = Inr (ws, s')" by auto
  have l: "(0, 0) \<in> set lattice" "(2, 0) \<in> set lattice" by code_simp+
  have g: "legal 82 game2 (0, 0) (1, 0)" "legal 82 game2 (2, 0) (-1, 0)"
    unfolding legal_def by code_simp+
  have d: "(1, 0) \<in> set DEFAULT" "(-1, 0) \<in> set DEFAULT" by (simp_all add: DEFAULT_def)
  have e: "entries (possible_orients 82 game2 (0, 0)) = [(1, 0), (0, 1)]"
    "entries (possible_orients 82 game2 (2, 0)) = [(-1, 0), (1, 0), (0, 1)]"
    unfolding entries_def by code_simp+
  have w: "entries (all_possible_walls 82 game2) = ws" using a by (simp add: entries_def)
  note t = all_possible_walls_entries [OF a]
  from t have 1: "ws = concat (map (\<lambda>p. map (Pair p) (entries (possible_orients 82 game2 p))) lattice)"
    by (rule conjunct1)
  from t have 2: "distinct ws" by (elim conjE)
  from game2_entry [OF l(1) g(1) d(1)] game2_entry [OF l(2) g(2) d(2)]
  have 3: "((0, 0), (1, 0)) \<in> set ws" "((2, 0), (-1, 0)) \<in> set ws" unfolding w by simp_all
  have 4: "(2, 0) = ((0::int) + 2 * 1, (0::int) + 2 * 0)" by simp
  from 1 2 3 4 e show ?thesis unfolding w by (intro conjI)
qed

subsection \<open>C3: the speculative wall is taken back\<close>

text \<open>
  C3. On a validator whose players all have a goal (and with room for 82 nested calls of
  \<^verbatim>\<open>way_exists\<close>), \<^verbatim>\<open>possible_orients(p)\<close>, the evaluation of one candidate inside
  \<^verbatim>\<open>best_wall\<close>, and \<^verbatim>\<open>best_wall\<close> as a whole all return without raising, and the
  wall list they leave is the wall list they found: the candidate appended for the check
  is deleted again whether the check passed or failed.
\<close>

theorem speculative_wall_removed:
  assumes "82 \<le> n" "\<forall>pl\<in>set (players s). wins pl \<noteq> None"
  shows "(\<exists>ds s'. possible_orients n s p = Inr (ds, s') \<and> walls s' = walls s)
       \<and> (\<exists>sc s'. wall_score s my_pos win c = Inr (sc, s') \<and> walls s' = walls s)
       \<and> (\<exists>bw s'. best_wall n s my_pos win = Inr (bw, s') \<and> walls s' = walls s)"
proof -
  from possible_orients_total [OF assms, of p]
  obtain ds s1 where 1: "possible_orients n s p = Inr (ds, s1)" by blast
  from possible_orients_filter(2) [OF 1] have "walls s1 = walls s" by (rule reset_eq_fields)
  with 1 have a: "\<exists>ds s'. possible_orients n s p = Inr (ds, s') \<and> walls s' = walls s" by blast
  from wall_score_total [OF assms(2), of my_pos win c]
  obtain sc s2 where 2: "wall_score s my_pos win c = Inr (sc, s2)" "reset s2 = reset s" by blast
  from 2(2) have "walls s2 = walls s" by (rule reset_eq_fields)
  with 2 have b: "\<exists>sc s'. wall_score s my_pos win c = Inr (sc, s') \<and> walls s' = walls s" by blast
  from best_wall_total [OF assms, of my_pos win]
  obtain bw s3 where 3: "best_wall n s my_pos win = Inr (bw, s3)" "reset s3 = reset s" by blast
  from 3(2) have "walls s3 = walls s" by (rule reset_eq_fields)
  with 3 have c: "\<exists>bw s'. best_wall n s my_pos win = Inr (bw, s') \<and> walls s' = walls s" by blast
  from a b c show ?thesis by blast
qed

text \<open>The theorem at the fresh two-player game.\<close>

theorem speculative_wall_removed_witness:
  "(\<exists>ds s'. possible_orients 82 game2 (0, 0) = Inr (ds, s') \<and> walls s' = walls game2)
   \<and> (\<exists>sc s'. wall_score game2 (4, 0) (-1, 8) ((0, 0), (1, 0)) = Inr (sc, s') \<and> walls s' = walls game2)
   \<and> (\<exists>bw s'. best_wall 82 game2 (4, 0) (-1, 8) = Inr (bw, s') \<and> walls s' = walls game2)"
  using speculative_wall_removed [OF _ game2_wins, of 82 "(0, 0)" "(4, 0)" "(-1, 8)" "((0, 0), (1, 0))"]
  by simp

end
